theory Spec2Isabelle
  imports Main "HOL-Library.Word"
begin

unbundle bit_operations_syntax

section \<open>Field arithmetic over \<open>big.Int\<close>\<close>

text \<open>
  Arbitrary-precision integers are \<^typ>\<open>int\<close>. The program only builds a curve after
  checking \<open>p > 3\<close>, so the modulus is positive wherever these functions run; the
  library calls (\<open>Mod\<close>, \<open>Exp\<close>, \<open>ModInverse\<close>) are modelled for a positive modulus.
\<close>

datatype error = InverseOfZero | NoInverse | NonResidue | TSFailure | NilPointer

definition modM :: "int \<Rightarrow> int \<Rightarrow> int" where
  "modM a p = (let z = a mod p in if z < 0 then z + p else z)"

definition addM :: "int \<Rightarrow> int \<Rightarrow> int \<Rightarrow> int" where
  "addM a b p = modM (a + b) p"

definition subM :: "int \<Rightarrow> int \<Rightarrow> int \<Rightarrow> int" where
  "subM a b p = modM (a - b) p"

definition mulM :: "int \<Rightarrow> int \<Rightarrow> int \<Rightarrow> int" where
  "mulM a b p = modM (a * b) p"

definition negM :: "int \<Rightarrow> int \<Rightarrow> int" where
  "negM a p = subM 0 a p"

text \<open>
  \<open>big.Int.ModInverse(a, p)\<close>: the inverse of \<open>a\<close> in \<open>[0, p)\<close>, or \<open>nil\<close> when
  \<open>a\<close> and \<open>p\<close> are not coprime.
\<close>

definition ModInverse :: "int \<Rightarrow> int \<Rightarrow> int option" where
  "ModInverse a p = List.find (\<lambda>x. (a * x) mod p = 1 mod p) [0..p - 1]"

definition invM :: "int \<Rightarrow> int \<Rightarrow> error + int" where
  "invM a p =
     (if a = 0 then Inl InverseOfZero
      else case ModInverse a p of
             None \<Rightarrow> Inl NoInverse
           | Some i \<Rightarrow> Inr i)"

text \<open>\<open>big.Int.Exp(a, e, p)\<close> for an exponent \<open>e \<ge> 0\<close>.\<close>

definition powM :: "int \<Rightarrow> int \<Rightarrow> int \<Rightarrow> int" where
  "powM a e p = a ^ nat e mod p"

text \<open>Legendre symbol by Euler's criterion; \<open>Rsh(e, 1)\<close> halves the exponent.\<close>

definition legendre :: "int \<Rightarrow> int \<Rightarrow> int" where
  "legendre a p =
     (let A = modM a p in
      if A = 0 then 0
      else let e = (p - 1) div 2;
               v = powM A e p
           in if v = 1 then 1 else if v = 0 then 0 else - 1)"

subsection \<open>Tonelli--Shanks\<close>

text \<open>
  The loop \<open>for q.Bit(0) == 0 { q >>= 1; s++ }\<close>. On \<open>q = 0\<close> the source never leaves
  the loop; \<open>None\<close> stands for that.
\<close>

function factor_twos :: "int \<Rightarrow> nat \<Rightarrow> (int \<times> nat) option" where
  "factor_twos q s =
     (if q = 0 then None
      else if even q then factor_twos (q div 2) (Suc s)
      else Some (q, s))"
  by pat_completeness auto
termination
  by (relation "measure (\<lambda>(q, s). nat \<bar>q\<bar>)") (auto elim!: evenE)

declare factor_twos.simps [simp del]

text \<open>
  The search \<open>for legendre(z, p) != -1 { z++ }\<close> has no bound in the source, so it is
  a partial function: \<open>None\<close> when no candidate is ever accepted.
\<close>

partial_function (option) find_nonresidue :: "int \<Rightarrow> int \<Rightarrow> int option" where
  "find_nonresidue z p =
     (if legendre z p \<noteq> - 1 then find_nonresidue (z + 1) p else Some z)"

declare find_nonresidue.simps [code]

text \<open>
  The inner loop \<open>for i < m { if b == 1 break; b = b^2; i++ }\<close>, returning the final
  \<open>i\<close>.
\<close>

function find_i :: "int \<Rightarrow> int \<Rightarrow> nat \<Rightarrow> nat \<Rightarrow> nat" where
  "find_i p b i m =
     (if i < m then (if b = 1 then i else find_i p (powM b 2 p) (Suc i) m) else i)"
  by pat_completeness auto
termination
  by (relation "measure (\<lambda>(p, b, i, m). m - i)") auto

declare find_i.simps [simp del]

text \<open>The loop \<open>for j := 0; j < m-i-1; j++ { b = b^2 }\<close>.\<close>

fun square_times :: "int \<Rightarrow> int \<Rightarrow> nat \<Rightarrow> int" where
  "square_times p b 0 = b"
| "square_times p b (Suc n) = square_times p (powM b 2 p) n"

lemma find_i_le: "i \<le> m \<Longrightarrow> find_i p b i m \<le> m"
proof (induction p b i m rule: find_i.induct)
  case (1 p b i m)
  then show ?case by (subst find_i.simps) auto
qed

lemma find_i_ge: "i \<le> find_i p b i m"
proof (induction p b i m rule: find_i.induct)
  case (1 p b i m)
  show ?case
  proof (cases "i < m \<and> b \<noteq> 1")
    case True
    with 1 have "Suc i \<le> find_i p (powM b 2 p) (Suc i) m" by simp
    with True show ?thesis by (subst find_i.simps) simp
  next
    case False
    then show ?thesis by (subst find_i.simps) auto
  qed
qed

text \<open>The descent \<open>for t.Cmp(one) != 0 { ... }\<close> on the state \<open>(x, t, c, m)\<close>.\<close>

function ts_loop :: "int \<Rightarrow> int \<Rightarrow> int \<Rightarrow> int \<Rightarrow> nat \<Rightarrow> error + int" where
  "ts_loop p x t c m =
     (if t = 1 then Inr x
      else let i = find_i p (powM t 2 p) 1 m in
        if i = m then Inl TSFailure
        else let b = square_times p c (m - i - 1);
                 x' = mulM x b p;
                 bb = mulM b b p;
                 t' = mulM t bb p
             in ts_loop p x' t' bb i)"
  by pat_completeness auto
termination
proof (relation "measure (\<lambda>(p, x, t, c, m). if m = 0 then 2 else m)", goal_cases)
  case 1
  show ?case by simp
next
  case (2 p x t c m i b x' bb t')
  have "1 \<le> i" using 2(2) find_i_ge [of 1 p "powM t 2 p" m] by simp
  moreover have "0 < m \<Longrightarrow> i \<le> m" using 2(2) find_i_le [of 1 m p "powM t 2 p"] by simp
  moreover have "m = 0 \<Longrightarrow> i = 1" using 2(2) by (subst (asm) find_i.simps) simp
  ultimately show ?case using 2(3) by (cases "m = 0") auto
qed

declare ts_loop.simps [simp del]

text \<open>
  \<open>sqrtModP\<close> returns \<open>None\<close> when one of its unbounded loops does not end, and
  otherwise \<open>Some\<close> of the error or the root it returns.
\<close>

definition sqrtModP :: "int \<Rightarrow> int \<Rightarrow> (error + int) option" where
  "sqrtModP a p =
     (let A = modM a p in
      if A = 0 then Some (Inr 0)
      else if legendre A p \<noteq> 1 then Some (Inl NonResidue)
      else if and (p - 3) 3 = 0 then Some (Inr (powM A ((p + 1) div 4) p))
      else case factor_twos (p - 1) 0 of
             None \<Rightarrow> None
           | Some (q, s) \<Rightarrow>
               (case find_nonresidue 2 p of
                  None \<Rightarrow> None
                | Some z \<Rightarrow>
                    Some (ts_loop p (powM A ((q + 1) div 2) p) (powM A q p) (powM z q p) s)))"

section \<open>Curve and group law\<close>

text \<open>\<open>type Curve struct{ P, A, B *big.Int }\<close>\<close>

record Curve =
  curve_P :: int
  curve_A :: int
  curve_B :: int

text \<open>
  \<open>type Point struct { X, Y *big.Int; Inf bool }\<close>: the identity is built as
  \<open>Point{Inf: true}\<close> and its coordinates are never read, so a point is either
  \<open>Infinity\<close> or an affine pair.
\<close>

datatype Point = Infinity | Affine int int

definition isSingular :: "Curve \<Rightarrow> bool" where
  "isSingular c =
     (let p = curve_P c;
          A2 = mulM (curve_A c) (curve_A c) p;
          A3 = mulM A2 (curve_A c) p;
          term = addM (mulM 4 A3 p) (mulM 27 (mulM (curve_B c) (curve_B c) p) p) p
      in term = 0)"

fun on :: "Curve \<Rightarrow> Point \<Rightarrow> bool" where
  "on c Infinity = True"
| "on c (Affine x y) =
     (let p = curve_P c;
          x3 = mulM x (mulM x x p) p;
          rhs = addM (addM x3 (mulM (curve_A c) x p) p) (curve_B c) p;
          y2 = mulM y y p
      in y2 = rhs)"

fun neg :: "Curve \<Rightarrow> Point \<Rightarrow> Point" where
  "neg c Infinity = Infinity"
| "neg c (Affine x y) = Affine x (negM y (curve_P c))"

fun add :: "Curve \<Rightarrow> Point \<Rightarrow> Point \<Rightarrow> error + Point" where
  "add c Infinity Q = Inr Q"
| "add c (Affine px py) Infinity = Inr (Affine px py)"
| "add c (Affine px py) (Affine qx qy) =
     (let p = curve_P c in
      if px = qx then
        (let ysum = modM (py + qy) p in
         if ysum = 0 then Inr Infinity
         else if py = 0 then Inr Infinity
         else let num = addM (mulM 3 (mulM px px p) p) (curve_A c) p;
                  den = mulM 2 py p
              in case invM den p of
                   Inl err \<Rightarrow> Inl err
                 | Inr i \<Rightarrow>
                     (let lam = mulM num i p;
                          xr = subM (subM (mulM lam lam p) px p) qx p;
                          yr = subM (mulM lam (subM px xr p) p) py p
                      in Inr (Affine xr yr)))
      else
        (let num = subM qy py p;
             den = subM qx px p
         in case invM den p of
              Inl err \<Rightarrow> Inl err
            | Inr i \<Rightarrow>
                (let lam = mulM num i p;
                     xr = subM (subM (mulM lam lam p) px p) qx p;
                     yr = subM (mulM lam (subM px xr p) p) py p
                 in Inr (Affine xr yr))))"

definition double :: "Curve \<Rightarrow> Point \<Rightarrow> error + Point" where
  "double c P = add c P P"

section \<open>Lines on the torus\<close>

text \<open>
  \<open>type Line struct { Vertical bool; M, C, V *big.Int }\<close>: a vertical line \<open>x = v\<close> or
  a line \<open>y = m x + c\<close>.
\<close>

datatype Line = Vertical int | Slope int int

text \<open>\<open>big.Int.String()\<close>: the decimal digits, with a minus sign when negative.\<close>

function digits :: "nat \<Rightarrow> string" where
  "digits n = (if n < 10 then [''0123456789'' ! n] else digits (n div 10) @ [''0123456789'' ! (n mod 10)])"
  by pat_completeness auto
termination
  by (relation "measure id") auto

declare digits.simps [simp del]

definition String :: "int \<Rightarrow> string" where
  "String z = (if z < 0 then CHR ''-'' # digits (nat (- z)) else digits (nat z))"

fun key :: "Line \<Rightarrow> string" where
  "key (Vertical v) = ''v:'' @ String v"
| "key (Slope m c) = ''m:'' @ String m @ ''|c:'' @ String c"

text \<open>
  \<open>lineThrough(c, P, Q)\<close> with \<open>Q\<close> a pointer: \<open>None\<close> is \<open>nil\<close>. Its callers pass
  affine points only; the coordinates of an identity are \<open>nil\<close>, and reading them
  panics (\<open>NilPointer\<close>).
\<close>

text \<open>The tangent branch of \<open>lineThrough\<close>, taken for \<open>Q == nil\<close> and for \<open>Q = P\<close>.\<close>

definition tangentLine :: "Curve \<Rightarrow> int \<Rightarrow> int \<Rightarrow> error + Line" where
  "tangentLine c px py =
     (let p = curve_P c in
      if py = 0 then Inr (Vertical px)
      else let num = addM (mulM 3 (mulM px px p) p) (curve_A c) p;
               den = mulM 2 py p
           in case invM den p of
                Inl err \<Rightarrow> Inl err
              | Inr i \<Rightarrow>
                  (let m = mulM num i p;
                       cst = subM py (mulM m px p) p
                   in Inr (Slope m cst)))"

fun lineThrough :: "Curve \<Rightarrow> Point \<Rightarrow> Point option \<Rightarrow> error + Line" where
  "lineThrough c (Affine px py) None = tangentLine c px py"
| "lineThrough c (Affine px py) (Some (Affine qx qy)) =
     (let p = curve_P c in
      if px = qx \<and> modM (py + qy) p \<noteq> 0 then tangentLine c px py
      else if px = qx \<and> modM (py + qy) p = 0 then Inr (Vertical px)
      else let num = subM qy py p;
               den = subM qx px p
           in case invM den p of
                Inl err \<Rightarrow> Inl err
              | Inr i \<Rightarrow>
                  (let m = mulM num i p;
                       cst = subM py (mulM m px p) p
                   in Inr (Slope m cst)))"
| "lineThrough c P Q = Inl NilPointer"

text \<open>
  \<open>thirdIntersection(c, P, Q)\<close>: the point \<open>R\<close> and the slice of affine intersections.
\<close>

fun thirdIntersection :: "Curve \<Rightarrow> Point \<Rightarrow> Point option \<Rightarrow> error + (Point \<times> Point list)" where
  "thirdIntersection c P None =
     (case double c P of
        Inl err \<Rightarrow> Inl err
      | Inr R \<Rightarrow> if R = Infinity then Inr (R, [P, neg c P]) else Inr (R, [P, R]))"
| "thirdIntersection c (Affine px py) (Some (Affine qx qy)) =
     (if px = qx \<and> modM (py + qy) (curve_P c) = 0
      then Inr (Infinity, [Affine px py, Affine qx qy])
      else case add c (Affine px py) (Affine qx qy) of
             Inl err \<Rightarrow> Inl err
           | Inr R \<Rightarrow> Inr (R, [Affine px py, Affine qx qy, R]))"
| "thirdIntersection c P (Some Q) = Inl NilPointer"

text \<open>The curve of the tests and of \<open>main\<close>: coefficients reduced modulo \<open>p\<close>.\<close>

definition mustCurve :: "int \<Rightarrow> int \<Rightarrow> int \<Rightarrow> Curve" where
  "mustCurve p A B = \<lparr>curve_P = p, curve_A = modM A p, curve_B = modM B p\<rparr>"

section \<open>Counting\<close>

text \<open>
  The value \<open>t = x^3 + A x + B\<close> as \<open>findNextSeed\<close> and \<open>countLegendre\<close> both compute it.
\<close>

definition rhs :: "Curve \<Rightarrow> int \<Rightarrow> int" where
  "rhs c x =
     (let p = curve_P c
      in addM (addM (mulM x (mulM x x p) p) (mulM (curve_A c) x p) p) (curve_B c) p)"

text \<open>\<open>countLegendre\<close>: the loop over \<open>x = 0, ..., p - 1\<close> and the count it returns.\<close>

function count_loop :: "Curve \<Rightarrow> int \<Rightarrow> int \<Rightarrow> int" where
  "count_loop c x cnt =
     (if x < curve_P c then
        (let lg = legendre (rhs c x) (curve_P c)
         in count_loop c (x + 1)
              (if lg = 0 then cnt + 1 else if lg = 1 then cnt + 2 else cnt))
      else cnt)"
  by pat_completeness auto
termination
  by (relation "measure (\<lambda>(c, x, cnt). nat (curve_P c - x))") auto

declare count_loop.simps [simp del]

definition countLegendre :: "Curve \<Rightarrow> int" where
  "countLegendre c = count_loop c 0 1"

section \<open>The explicit grid\<close>

text \<open>
  \<open>type Bitset struct { bits []uint64; n int }\<close>. Go's \<open>int\<close> is modelled as
  \<^typ>\<open>int\<close>: grid mode is refused for \<open>p > 10000\<close>, so no index or product
  leaves the 64-bit range, and every index used is inside the slice.
\<close>

record Bitset =
  bits :: "64 word list"
  bs_n :: int

definition newBitset :: "int \<Rightarrow> Bitset" where
  "newBitset n = \<lparr>bits = replicate (nat ((n + 63) div 64)) 0, bs_n = n\<rparr>"

definition bs_set :: "Bitset \<Rightarrow> int \<Rightarrow> Bitset" where
  "bs_set b i =
     b\<lparr>bits := (bits b)[nat (i div 64) :=
        (bits b ! nat (i div 64)) OR push_bit (nat (i mod 64)) 1]\<rparr>"

definition bs_get :: "Bitset \<Rightarrow> int \<Rightarrow> bool" where
  "bs_get b i = ((drop_bit (nat (i mod 64)) (bits b ! nat (i div 64))) AND 1 = 1)"

record Grid =
  grid_p :: int
  grid_found :: Bitset
  grid_excl :: Bitset

definition newGrid :: "int \<Rightarrow> Grid" where
  "newGrid p = \<lparr>grid_p = p, grid_found = newBitset (p * p), grid_excl = newBitset (p * p)\<rparr>"

definition idx :: "Grid \<Rightarrow> int \<Rightarrow> int \<Rightarrow> int" where
  "idx g x y = y * grid_p g + x"

definition markFound :: "Grid \<Rightarrow> int \<Rightarrow> int \<Rightarrow> Grid" where
  "markFound g x y = g\<lparr>grid_found := bs_set (grid_found g) (idx g x y)\<rparr>"

definition markExcl :: "Grid \<Rightarrow> int \<Rightarrow> int \<Rightarrow> Grid" where
  "markExcl g x y = g\<lparr>grid_excl := bs_set (grid_excl g) (idx g x y)\<rparr>"

definition isExcluded :: "Grid \<Rightarrow> int \<Rightarrow> int \<Rightarrow> bool" where
  "isExcluded g x y = bs_get (grid_excl g) (idx g x y)"

definition isFound :: "Grid \<Rightarrow> int \<Rightarrow> int \<Rightarrow> bool" where
  "isFound g x y = bs_get (grid_found g) (idx g x y)"

text \<open>Go's \<open>%\<close> truncates towards zero.\<close>

definition rem_go :: "int \<Rightarrow> int \<Rightarrow> int" where
  "rem_go a b = sgn a * (\<bar>a\<bar> mod \<bar>b\<bar>)"

text \<open>\<open>fmt.Sprintf("%d|%d", x, y)\<close>\<close>

definition keyXY :: "int \<Rightarrow> int \<Rightarrow> string" where
  "keyXY x y = String x @ ''|'' @ String y"

text \<open>The two loops of \<open>markLineExclusions\<close>, over \<open>y\<close> and over \<open>x\<close>.\<close>

function excl_vertical :: "Grid \<Rightarrow> int \<Rightarrow> string set \<Rightarrow> int \<Rightarrow> Grid" where
  "excl_vertical g x keep y =
     (if y < grid_p g then
        (if keyXY x y \<in> keep then excl_vertical g x keep (y + 1)
         else excl_vertical (markExcl g x y) x keep (y + 1))
      else g)"
  by pat_completeness auto
termination
  by (relation "measure (\<lambda>(g, x, keep, y). nat (grid_p g - y))") (auto simp: markExcl_def)

declare excl_vertical.simps [simp del]

function excl_slope :: "Grid \<Rightarrow> int \<Rightarrow> int \<Rightarrow> string set \<Rightarrow> int \<Rightarrow> Grid" where
  "excl_slope g m c keep x =
     (if x < grid_p g then
        (let y0 = rem_go (m * x + c) (grid_p g);
             y = (if y0 < 0 then y0 + grid_p g else y0)
         in if keyXY x y \<in> keep then excl_slope g m c keep (x + 1)
            else excl_slope (markExcl g x y) m c keep (x + 1))
      else g)"
  by pat_completeness auto
termination
  by (relation "measure (\<lambda>(g, m, c, keep, x). nat (grid_p g - x))") (auto simp: markExcl_def)

declare excl_slope.simps [simp del]

fun markLineExclusions :: "Grid \<Rightarrow> Line \<Rightarrow> string set \<Rightarrow> Grid" where
  "markLineExclusions g (Vertical v) keep = excl_vertical g (rem_go v (grid_p g)) keep 0"
| "markLineExclusions g (Slope m c) keep =
     excl_slope g (rem_go m (grid_p g)) (rem_go c (grid_p g)) keep 0"

section \<open>The engine\<close>

text \<open>
  \<open>type Engine struct\<close>. The maps to \<open>bool\<close> only ever store \<open>true\<close> and are sets of
  keys. \<open>G\<close> is allocated exactly when \<open>UseGrid\<close> is set and is not read otherwise.
\<close>

record Engine =
  eng_C :: Curve
  UseGrid :: bool
  eng_G :: Grid
  MaxLines :: int
  CountFirst :: bool
  KnownCount :: "int option"
  found :: "string \<rightharpoonup> Point"
  order :: "Point list"
  indexOf :: "string \<rightharpoonup> nat"
  deadX :: "string set"
  linesDone :: "string set"
  secantDone :: "string set"
  tangentDone :: "string set"

text \<open>The engine as \<open>main\<close> and the tests build it.\<close>

definition newEngine :: "Curve \<Rightarrow> bool \<Rightarrow> Engine" where
  "newEngine c useGrid =
     \<lparr>eng_C = c, UseGrid = useGrid,
      eng_G = (if useGrid then newGrid (curve_P c) else newGrid 0),
      MaxLines = 0, CountFirst = False, KnownCount = None,
      found = Map.empty, order = [], indexOf = Map.empty,
      deadX = {}, linesDone = {}, secantDone = {}, tangentDone = {}\<rparr>"

fun pointKey :: "Point \<Rightarrow> string" where
  "pointKey Infinity = ''inf''"
| "pointKey (Affine x y) = String x @ ''|'' @ String y"

text \<open>Go compares strings byte by byte.\<close>

fun str_less :: "string \<Rightarrow> string \<Rightarrow> bool" where
  "str_less [] [] = False"
| "str_less [] (y # ys) = True"
| "str_less (x # xs) [] = False"
| "str_less (x # xs) (y # ys) =
     ((of_char x :: nat) < of_char y \<or> (x = y \<and> str_less xs ys))"

definition pairKey :: "Point \<Rightarrow> Point \<Rightarrow> string" where
  "pairKey P Q =
     (let k1 = pointKey P; k2 = pointKey Q
      in if str_less k1 k2 then k1 @ ''#'' @ k2 else k2 @ ''#'' @ k1)"

text \<open>The reduction \<open>x := int(X.Int64()) % p; if x < 0 { x += p }\<close>.\<close>

definition cell :: "int \<Rightarrow> int \<Rightarrow> int" where
  "cell v p = (let x = rem_go v p in if x < 0 then x + p else x)"

definition addFound :: "Engine \<Rightarrow> Point \<Rightarrow> Engine \<times> bool" where
  "addFound e P =
     (if \<not> on (eng_C e) P then (e, False)
      else let k = pointKey P in
        if found e k \<noteq> None then (e, False)
        else let e1 = e\<lparr>found := (found e)(k \<mapsto> P)\<rparr> in
          (case P of
             Infinity \<Rightarrow> (e1, True)
           | Affine px py \<Rightarrow>
               (let e2 = e1\<lparr>indexOf := (indexOf e1)(k \<mapsto> length (order e1)),
                              order := order e1 @ [P]\<rparr>
                in if UseGrid e2
                   then (e2\<lparr>eng_G := markFound (eng_G e2)
                            (cell px (grid_p (eng_G e2))) (cell py (grid_p (eng_G e2)))\<rparr>, True)
                   else (e2, True))))"

text \<open>\<open>for _, S := range inters { e.addFound(S) }\<close>\<close>

fun addFound_all :: "Engine \<Rightarrow> Point list \<Rightarrow> Engine" where
  "addFound_all e [] = e"
| "addFound_all e (S # rest) = addFound_all (fst (addFound e S)) rest"

text \<open>The \<open>keep\<close> map built from the intersections.\<close>

fun keepOf :: "int \<Rightarrow> Point list \<Rightarrow> string set \<Rightarrow> string set" where
  "keepOf p [] keep = keep"
| "keepOf p (Infinity # rest) keep = keepOf p rest keep"
| "keepOf p (Affine sx sy # rest) keep =
     keepOf p rest (insert (keyXY (cell sx p) (cell sy p)) keep)"

definition processLineFrom :: "Engine \<Rightarrow> Point \<Rightarrow> Point option \<Rightarrow> error + Engine" where
  "processLineFrom e P Q =
     (case lineThrough (eng_C e) P Q of
        Inl err \<Rightarrow> Inl err
      | Inr L \<Rightarrow>
          (let lk = key L in
           if lk \<in> linesDone e then Inr e
           else case thirdIntersection (eng_C e) P Q of
                  Inl err \<Rightarrow> Inl err
                | Inr (R, inters) \<Rightarrow>
                    (let e1 = addFound_all e inters;
                         e2 = (if R \<noteq> Infinity then fst (addFound e1 (neg (eng_C e1) R)) else e1);
                         e3 = (if UseGrid e2
                               then e2\<lparr>eng_G := markLineExclusions (eng_G e2) L
                                      (keepOf (grid_p (eng_G e2)) inters {})\<rparr>
                               else e2)
                     in Inr (e3\<lparr>linesDone := insert lk (linesDone e3)\<rparr>))))"

text \<open>
  \<open>walkAndExclude\<close>. The tangent block and one pass of the secant loop's body, each
  on the engine and the local counter \<open>processed\<close>.
\<close>

definition tangent_step :: "Engine \<Rightarrow> Point \<Rightarrow> int \<Rightarrow> error + (Engine \<times> int)" where
  "tangent_step e P processed =
     (let pk = pointKey P in
      if pk \<notin> tangentDone e then
        (case processLineFrom e P None of
           Inl err \<Rightarrow> Inl err
         | Inr e1 \<Rightarrow> Inr (e1\<lparr>tangentDone := insert pk (tangentDone e1)\<rparr>, processed + 1))
      else Inr (e, processed))"

text \<open>
  \<open>for j := 0; j < i; j++ { ... }\<close>: skips an identity \<open>Q\<close> and a pair already done, and
  breaks once the cap is reached.
\<close>

function secant_loop ::
  "int \<Rightarrow> Engine \<Rightarrow> Point \<Rightarrow> nat \<Rightarrow> nat \<Rightarrow> int \<Rightarrow> error + (Engine \<times> int)" where
  "secant_loop maxLines e P i j processed =
     (if j < i then
        (let Q = order e ! j in
         if Q = Infinity then secant_loop maxLines e P i (Suc j) processed
         else let pair = pairKey P Q in
           if pair \<in> secantDone e then secant_loop maxLines e P i (Suc j) processed
           else case processLineFrom e P (Some Q) of
                  Inl err \<Rightarrow> Inl err
                | Inr e1 \<Rightarrow>
                    (let e2 = e1\<lparr>secantDone := insert pair (secantDone e1)\<rparr>;
                         processed' = processed + 1
                     in if maxLines > 0 \<and> processed' \<ge> maxLines then Inr (e2, processed')
                        else secant_loop maxLines e2 P i (Suc j) processed'))
      else Inr (e, processed))"
  by pat_completeness auto
termination
  by (relation "measure (\<lambda>(maxLines, e, P, i, j, processed). i - j)") auto

declare secant_loop.simps [simp del]

text \<open>
  The outer loop runs over \<open>order\<close> while it grows, with no bound of its own: a partial
  function, \<open>None\<close> when it does not end.
\<close>

partial_function (option) walk_loop ::
  "int \<Rightarrow> Engine \<Rightarrow> nat \<Rightarrow> int \<Rightarrow> (error + (Engine \<times> int)) option" where
  "walk_loop maxLines e i processed =
     (if i < length (order e) then
        (if maxLines > 0 \<and> processed \<ge> maxLines then Some (Inr (e, processed))
         else let P = order e ! i in
           case tangent_step e P processed of
             Inl err \<Rightarrow> Some (Inl err)
           | Inr (e1, n1) \<Rightarrow>
               (case secant_loop maxLines e1 P i 0 n1 of
                  Inl err \<Rightarrow> Some (Inl err)
                | Inr (e2, n2) \<Rightarrow>
                    (if KnownCount e2 \<noteq> None
                        \<and> int (length (order e2)) = the (KnownCount e2) - 1
                     then Some (Inr (e2, n2))
                     else walk_loop maxLines e2 (Suc i) n2)))
      else Some (Inr (e, processed)))"

declare walk_loop.simps [code]

definition walkAndExclude :: "Engine \<Rightarrow> int \<Rightarrow> (error + Engine) option" where
  "walkAndExclude e maxLines =
     (case walk_loop maxLines e 0 0 of
        None \<Rightarrow> None
      | Some (Inl err) \<Rightarrow> Some (Inl err)
      | Some (Inr (e', processed)) \<Rightarrow> Some (Inr e'))"

text \<open>
  \<open>findNextSeed\<close>. \<open>draw n\<close> is the value \<open>rand.Int\<close> returns in the pass that starts
  with \<open>tries = n\<close> (every pass that does not return adds one to \<open>tries\<close>). The result
  is the engine with its \<open>deadX\<close> as left behind and the seed, if one was found;
  \<open>None\<close> when \<open>sqrtModP\<close> does not return.
\<close>

function findNextSeed_loop ::
  "(int \<Rightarrow> int) \<Rightarrow> Engine \<Rightarrow> int \<Rightarrow> (Engine \<times> Point option) option" where
  "findNextSeed_loop draw e tries =
     (if tries < 200000 then
        (let p = curve_P (eng_C e);
             x = draw tries;
             kx = String x
         in if kx \<in> deadX e then findNextSeed_loop draw e (tries + 1)
            else let t = rhs (eng_C e) x;
                     lg = legendre t p
                 in if lg = - 1 then findNextSeed_loop draw e (tries + 1)
                    else if lg = 0 then
                      (if found e (pointKey (Affine x 0)) = None then Some (e, Some (Affine x 0))
                       else findNextSeed_loop draw (e\<lparr>deadX := insert kx (deadX e)\<rparr>) (tries + 1))
                    else case sqrtModP t p of
                           None \<Rightarrow> None
                         | Some (Inl err) \<Rightarrow> findNextSeed_loop draw e (tries + 1)
                         | Some (Inr y) \<Rightarrow>
                             (if found e (pointKey (Affine x y)) = None
                              then Some (e, Some (Affine x y))
                              else if found e (pointKey (Affine x (negM y p))) = None
                              then Some (e, Some (Affine x (negM y p)))
                              else findNextSeed_loop draw
                                     (e\<lparr>deadX := insert kx (deadX e)\<rparr>) (tries + 1)))
      else Some (e, None))"
  by pat_completeness auto
termination
  by (relation "measure (\<lambda>(draw, e, tries). nat (200000 - tries))") auto

declare findNextSeed_loop.simps [simp del]

definition findNextSeed :: "(int \<Rightarrow> int) \<Rightarrow> Engine \<Rightarrow> (Engine \<times> Point option) option" where
  "findNextSeed draw e = findNextSeed_loop draw e 0"

text \<open>
  Fixtures, as in the repository's tests: the engine for \<open>y^2 = x^3 + 1\<close> over
  \<open>p = 11\<close> after \<open>addFound\<close> of the seed \<open>(2, 3)\<close>, and a sequence of draws
  \<open>1, 2, 2, ...\<close> for the seed search.
\<close>

definition seeded :: "bool \<Rightarrow> Engine" where
  "seeded useGrid = fst (addFound (newEngine (mustCurve 11 0 1) useGrid) (Affine 2 3))"

definition draws12 :: "int \<Rightarrow> int" where
  "draws12 n = (if n = 0 then 1 else 2)"

text \<open>
  The same engine after \<open>addFound\<close> of \<open>(2, 8)\<close> as well, so that both points above
  \<open>x = 2\<close> are found, and the draws \<open>2, 0, 0, ...\<close>.
\<close>

definition seeded_both :: Engine where
  "seeded_both = fst (addFound (seeded False) (Affine 2 8))"

definition draws20 :: "int \<Rightarrow> int" where
  "draws20 n = (if n = 0 then 2 else 0)"

section \<open>Vocabulary of the properties\<close>

text \<open>Primality of the modulus, by trial division.\<close>

definition prime_int :: "int \<Rightarrow> bool" where
  "prime_int p \<longleftrightarrow> 1 < p \<and> (\<forall>d\<in>{2..<p}. \<not> d dvd p)"

definition odd_prime :: "int \<Rightarrow> bool" where
  "odd_prime p \<longleftrightarrow> prime_int p \<and> odd p"

text \<open>A point is the identity or has both coordinates in \<open>[0, p)\<close>.\<close>

fun in_range :: "int \<Rightarrow> Point \<Rightarrow> bool" where
  "in_range p Infinity = True"
| "in_range p (Affine x y) = (0 \<le> x \<and> x < p \<and> 0 \<le> y \<and> y < p)"

text \<open>An affine point satisfies the equation of a line modulo \<open>p\<close>.\<close>

fun on_line :: "int \<Rightarrow> Line \<Rightarrow> Point \<Rightarrow> bool" where
  "on_line p (Slope m c) (Affine x y) = (y mod p = (m * x + c) mod p)"
| "on_line p (Vertical v) (Affine x y) = (x mod p = v mod p)"
| "on_line p L Infinity = False"

text \<open>
  Every point above \<open>x\<close> that \<open>findNextSeed\<close> looks for is in \<open>found\<close>: the point
  \<open>(x, 0)\<close> when the Legendre symbol of \<open>t\<close> is 0, and otherwise (symbol not \<open>-1\<close>) both
  \<open>(x, y)\<close> and \<open>(x, -y)\<close> for the root \<open>y\<close> that \<open>sqrtModP\<close> returns.
\<close>

definition roots_found :: "Engine \<Rightarrow> int \<Rightarrow> bool" where
  "roots_found e x =
     (let p = curve_P (eng_C e);
          t = rhs (eng_C e) x;
          lg = legendre t p
      in if lg = 0 then found e (pointKey (Affine x 0)) \<noteq> None
         else lg \<noteq> - 1 \<and>
           (case sqrtModP t p of
              Some (Inr y) \<Rightarrow>
                found e (pointKey (Affine x y)) \<noteq> None
                \<and> found e (pointKey (Affine x (negM y p))) \<noteq> None
            | _ \<Rightarrow> False))"

text \<open>
  The affine points of the curve, in the words of the specification: the pairs
  \<open>(x, y)\<close> in \<open>[0, p)^2\<close> with \<open>y^2 = x^3 + A x + B\<close> modulo \<open>p\<close>.
\<close>

definition affine_points :: "Curve \<Rightarrow> (int \<times> int) set" where
  "affine_points c =
     Set.filter (\<lambda>(x, y). (y * y) mod curve_P c = (x * x * x + curve_A c * x + curve_B c) mod curve_P c)
       ({0..<curve_P c} \<times> {0..<curve_P c})"

text \<open>
  Polynomials over the integers as coefficient lists (constant term first), their
  values, and the quotient by \<open>X - a\<close>; used to bound the number of roots modulo \<open>p\<close>.
\<close>

fun peval :: "int list \<Rightarrow> int \<Rightarrow> int" where
  "peval [] x = 0"
| "peval (c # cs) x = c + x * peval cs x"

fun pquot :: "int \<Rightarrow> int list \<Rightarrow> int list" where
  "pquot a [] = []"
| "pquot a (c # cs) = (if cs = [] then [] else peval cs a # pquot a cs)"

section \<open>Basic facts of the field arithmetic\<close>

lemma modM_pos: "0 < p \<Longrightarrow> modM a p = a mod p"
  by (simp add: modM_def Let_def not_less)

lemma prime_int_coprime:
  assumes "prime_int p" "\<not> p dvd a"
  shows "coprime p a"
proof (rule coprimeI)
  fix d assume d: "d dvd p" "d dvd a"
  from assms have p: "1 < p" by (simp add: prime_int_def)
  have "\<bar>d\<bar> dvd p" using d by simp
  then have "\<bar>d\<bar> \<le> p" using p by (intro zdvd_imp_le) auto
  moreover have "\<bar>d\<bar> \<noteq> 0" using d p by auto
  moreover have "\<bar>d\<bar> \<noteq> p" using d assms by (metis abs_dvd_iff)
  moreover have "\<bar>d\<bar> \<notin> {2..<p}"
  proof
    assume "\<bar>d\<bar> \<in> {2..<p}"
    with assms(1) have "\<not> \<bar>d\<bar> dvd p" unfolding prime_int_def by blast
    with \<open>\<bar>d\<bar> dvd p\<close> show False by simp
  qed
  ultimately have "\<bar>d\<bar> = 1" by auto
  then show "is_unit d" by simp
qed

lemma prime_int_dvd_mult:
  assumes "prime_int p" "p dvd a * b"
  shows "p dvd a \<or> p dvd b"
  using assms prime_int_coprime coprime_dvd_mult_right_iff by blast

lemma prime_int_inverse:
  assumes "prime_int p" "\<not> p dvd a"
  shows "\<exists>i. 0 \<le> i \<and> i < p \<and> (a * i) mod p = 1"
proof -
  from assms have p: "1 < p" by (simp add: prime_int_def)
  have "coprime a p" using prime_int_coprime [OF assms] by (simp add: coprime_commute)
  then obtain u v where "u * a + v * p = 1"
    using bezout_int [of a p] by auto
  then have "(a * u) mod p = 1 mod p"
    by (metis mod_mult_self2 mult.commute)
  then have "(a * (u mod p)) mod p = 1" using p by (simp add: mod_mult_right_eq)
  moreover have "0 \<le> u mod p" "u mod p < p" using p by auto
  ultimately show ?thesis by blast
qed

lemma find_upto_Some:
  assumes "l \<le> i" "i \<le> u" "Q i"
  shows "\<exists>j. List.find Q [l..u] = Some j \<and> l \<le> j \<and> j \<le> u \<and> Q j"
proof (cases "List.find Q [l..u]")
  case None
  then show ?thesis using assms by (auto simp: find_None_iff)
next
  case (Some j)
  then show ?thesis by (auto simp: find_Some_iff)
qed

lemma ModInverse_prime:
  assumes "prime_int p" "\<not> p dvd a"
  shows "\<exists>i. ModInverse a p = Some i \<and> 0 \<le> i \<and> i < p \<and> (a * i) mod p = 1"
proof -
  from assms have p: "1 < p" by (simp add: prime_int_def)
  obtain i where "0 \<le> i" "i < p" "(a * i) mod p = 1"
    using prime_int_inverse [OF assms] by blast
  then have "\<exists>j. List.find (\<lambda>x. (a * x) mod p = 1 mod p) [0..p - 1] = Some j
      \<and> 0 \<le> j \<and> j \<le> p - 1 \<and> (a * j) mod p = 1 mod p"
    using p by (intro find_upto_Some [of 0 i]) auto
  then show ?thesis using p by (auto simp: ModInverse_def)
qed

lemma invM_prime:
  assumes "prime_int p" "0 < a" "a < p"
  shows "\<exists>i. invM a p = Inr i \<and> 0 \<le> i \<and> i < p \<and> (a * i) mod p = 1"
proof -
  have "\<not> p dvd a" using assms by (simp add: zdvd_not_zless)
  from ModInverse_prime [OF assms(1) this] show ?thesis using assms by (auto simp: invM_def)
qed


lemma modM_idem: "0 < p \<Longrightarrow> modM (modM a p) p = modM a p"
  by (simp add: modM_pos)

lemma odd_prime_two_inv:
  assumes "odd_prime p" "0 < y" "y < p"
  shows "0 < (2 * y) mod p"
proof -
  from assms have p: "prime_int p" "odd p" "1 < p" by (auto simp: odd_prime_def prime_int_def)
  have "\<not> p dvd 2"
  proof
    assume "p dvd 2"
    then have "p \<le> 2" by (intro zdvd_imp_le) auto
    with p show False by (cases "p = 2") auto
  qed
  moreover have "\<not> p dvd y" using assms by (simp add: zdvd_not_zless)
  ultimately have "\<not> p dvd 2 * y" using prime_int_dvd_mult [OF p(1)] by blast
  then have "(2 * y) mod p \<noteq> 0" by (simp add: dvd_eq_mod_eq_0)
  moreover have "0 \<le> (2 * y) mod p" using p by simp
  ultimately show ?thesis by linarith
qed

lemma diff_mod_pos:
  assumes "0 \<le> a" "a < p" "0 \<le> b" "b < p" "a \<noteq> (b::int)"
  shows "0 < (a - b) mod p"
proof -
  have "\<not> p dvd (a - b)"
  proof
    assume "p dvd (a - b)"
    then have "a mod p = b mod p" by (simp add: mod_eq_dvd_iff)
    with assms show False by simp
  qed
  then have "(a - b) mod p \<noteq> 0" by (simp add: dvd_eq_mod_eq_0)
  moreover have "0 \<le> (a - b) mod p" using assms by simp
  ultimately show ?thesis by linarith
qed

lemma two_y_zero:
  assumes "odd_prime p" "0 \<le> y" "y < p" "(2 * y) mod p = 0"
  shows "y = 0"
  using odd_prime_two_inv [OF assms(1), of y] assms by (cases "y = 0") auto

lemma line_third_point:
  assumes p: "odd_prime p"
    and yr: "yr = subM (mulM m (subM px xr p) p) py p"
    and k: "k = subM py (mulM m px p) p"
  shows "on_line p (Slope m k) (Affine xr (negM yr p))"
    and "on_line p (Slope m k) (Affine xr yr) \<longleftrightarrow> yr = 0"
proof -
  have pp: "0 < p" using p by (simp add: odd_prime_def prime_int_def)
  have yr': "yr = (m * (px - xr) - py) mod p"
    by (simp add: yr subM_def mulM_def modM_pos [OF pp] mod_simps)
  have k': "k = (py - m * px) mod p"
    by (simp add: k subM_def mulM_def modM_pos [OF pp] mod_simps)
  have line: "(m * xr + k) mod p = (- yr) mod p"
    by (simp add: yr' k' mod_simps algebra_simps)
  show "on_line p (Slope m k) (Affine xr (negM yr p))"
    by (simp add: line negM_def subM_def modM_pos [OF pp])
  have rng: "0 \<le> yr" "yr < p" using pp by (simp_all add: yr')
  show "on_line p (Slope m k) (Affine xr yr) \<longleftrightarrow> yr = 0"
  proof
    assume "on_line p (Slope m k) (Affine xr yr)"
    then have "yr mod p = (- yr) mod p" by (simp add: line)
    then have "p dvd (yr - (- yr))" by (simp only: mod_eq_dvd_iff)
    then have "(2 * yr) mod p = 0" by (simp add: dvd_eq_mod_eq_0)
    from two_y_zero [OF p rng this] show "yr = 0" .
  next
    assume "yr = 0"
    then show "on_line p (Slope m k) (Affine xr yr)" by (simp add: line)
  qed
qed

lemma on_affine:
  assumes "0 < curve_P c"
  shows "on c (Affine x y) \<longleftrightarrow>
    (y * y) mod curve_P c = (x * x * x + curve_A c * x + curve_B c) mod curve_P c"
  by (simp add: Let_def mulM_def addM_def modM_pos [OF assms] mod_simps algebra_simps)

lemma same_x_opposite:
  assumes p: "prime_int (curve_P c)"
    and rng: "in_range (curve_P c) (Affine x y)" "in_range (curve_P c) (Affine x y')"
    and on: "on c (Affine x y)" "on c (Affine x y')" and ne: "y \<noteq> y'"
  shows "modM (y + y') (curve_P c) = 0"
proof -
  define q where "q = curve_P c"
  have pp: "0 < q" using p by (simp add: prime_int_def q_def)
  have "(y * y) mod q = (y' * y') mod q"
    using on [unfolded on_affine [OF pp [unfolded q_def]]] by (simp add: q_def)
  then have "q dvd (y * y - y' * y')" by (simp only: mod_eq_dvd_iff)
  moreover have "y * y - y' * y' = (y - y') * (y + y')" by (simp add: algebra_simps)
  ultimately have "q dvd (y - y') \<or> q dvd (y + y')"
    using prime_int_dvd_mult [of q] p by (simp add: q_def)
  moreover have "\<not> q dvd (y - y')"
  proof
    assume "q dvd (y - y')"
    then have "y mod q = y' mod q" by (simp add: mod_eq_dvd_iff)
    with rng ne show False by (simp add: q_def)
  qed
  ultimately show ?thesis using pp by (simp add: modM_pos q_def [symmetric] dvd_eq_mod_eq_0)
qed

lemma secant_symmetric:
  assumes p: "prime_int p"
    and d: "0 < d" "d < p" "d = (qx - px) mod p" "(d * i) mod p = 1"
    and d': "d' = (px - qx) mod p" "(d' * i') mod p = 1"
    and m: "m = mulM (subM qy py p) i p" "m' = mulM (subM py qy p) i' p"
  shows "m = m'" and "subM py (mulM m px p) p = subM qy (mulM m qx p) p"
proof -
  have pp: "0 < p" using p by (simp add: prime_int_def)
  have m1: "m = ((qy - py) * i) mod p" "m' = ((py - qy) * i') mod p"
    by (simp_all add: m mulM_def subM_def modM_pos [OF pp] mod_simps)
  have "(m * d) mod p = ((qy - py) * (d * i)) mod p"
    by (simp add: m1 mod_simps algebra_simps)
  also have "\<dots> = ((qy - py) * ((d * i) mod p)) mod p"
    by (simp only: mod_mult_right_eq)
  finally have md: "(m * d) mod p = (qy - py) mod p" by (simp add: d(4))
  have "(m' * d') mod p = ((py - qy) * (d' * i')) mod p"
    by (simp add: m1 mod_simps algebra_simps)
  also have "\<dots> = ((py - qy) * ((d' * i') mod p)) mod p"
    by (simp only: mod_mult_right_eq)
  finally have md': "(m' * d') mod p = (py - qy) mod p" by (simp add: d'(2))
  have A1: "(m * (qx - px)) mod p = (qy - py) mod p"
    using md by (simp add: d(3) mod_simps)
  have A2: "(m' * (px - qx)) mod p = (py - qy) mod p"
    using md' by (simp add: d'(1) mod_simps)
  have "p dvd (m * (qx - px) - (qy - py))" using A1 by (simp only: mod_eq_dvd_iff)
  moreover have "p dvd (m' * (px - qx) - (py - qy))" using A2 by (simp only: mod_eq_dvd_iff)
  ultimately have "p dvd (m * (qx - px) - (qy - py)) + (m' * (px - qx) - (py - qy))"
    by (rule dvd_add)
  then have "p dvd (m - m') * (qx - px)" by (simp add: algebra_simps)
  moreover have "\<not> p dvd (qx - px)" using d by (simp add: dvd_eq_mod_eq_0)
  ultimately have "p dvd (m - m')" using prime_int_dvd_mult [OF p] by blast
  then have "m mod p = m' mod p" by (simp add: mod_eq_dvd_iff)
  then show "m = m'" using pp by (simp add: m1)
  have "p dvd (m * (qx - px) - (qy - py))" using A1 by (simp only: mod_eq_dvd_iff)
  then have "p dvd ((py - m * px) - (qy - m * qx))" by (simp add: algebra_simps)
  then have "(py - m * px) mod p = (qy - m * qx) mod p" by (simp only: mod_eq_dvd_iff)
  then show "subM py (mulM m px p) p = subM qy (mulM m qx p) p"
    by (simp add: subM_def mulM_def modM_pos [OF pp] mod_simps)
qed

section \<open>Number theory of the prime field\<close>

lemma prime_int_gt1: "prime_int p \<Longrightarrow> 1 < p"
  by (simp add: prime_int_def)

lemma prime_int_dvd_power:
  assumes "prime_int p" "p dvd a ^ n"
  shows "p dvd a"
  using assms(2)
proof (induction n)
  case 0
  then show ?case using prime_int_gt1 [OF assms(1)] by simp
next
  case (Suc n)
  then show ?case using prime_int_dvd_mult [OF assms(1), of a "a ^ n"] by auto
qed

lemma prime_int_dvd_prod:
  assumes "prime_int p" "finite S" "p dvd prod f S"
  shows "\<exists>x\<in>S. p dvd f x"
  using assms(2,3)
proof (induction S rule: finite_induct)
  case empty
  then show ?case using prime_int_gt1 [OF assms(1)] by simp
next
  case (insert x F)
  then show ?case using prime_int_dvd_mult [OF assms(1), of "f x" "prod f F"] by auto
qed

lemma mult_mod_perm:
  assumes p: "prime_int p" and a: "\<not> p dvd a"
  shows "(\<lambda>x. (a * x) mod p) ` {1..<p} = {1..<p}"
proof -
  have pp: "1 < p" using p by (rule prime_int_gt1)
  let ?f = "\<lambda>x. (a * x) mod p"
  have inj: "inj_on ?f {1..<p}"
  proof (rule inj_onI)
    fix x y assume x: "x \<in> {1..<p}" and y: "y \<in> {1..<p}" and "?f x = ?f y"
    then have "p dvd (a * x - a * y)" by (simp only: mod_eq_dvd_iff)
    then have "p dvd a * (x - y)" by (simp add: algebra_simps)
    with prime_int_dvd_mult [OF p] a have "p dvd (x - y)" by blast
    then have "x mod p = y mod p" by (simp add: mod_eq_dvd_iff)
    with x y show "x = y" by simp
  qed
  have sub: "?f ` {1..<p} \<subseteq> {1..<p}"
  proof
    fix v assume "v \<in> ?f ` {1..<p}"
    then obtain x where x: "x \<in> {1..<p}" and v: "v = (a * x) mod p" by blast
    have "\<not> p dvd x" using x by (simp add: zdvd_not_zless)
    with prime_int_dvd_mult [OF p, of a x] a have "\<not> p dvd a * x" by blast
    then have "(a * x) mod p \<noteq> 0" by (simp add: dvd_eq_mod_eq_0)
    moreover have "0 \<le> (a * x) mod p" "(a * x) mod p < p" using pp by simp_all
    ultimately show "v \<in> {1..<p}" using v by simp
  qed
  have "card (?f ` {1..<p}) = card {1..<p}" using inj by (rule card_image)
  with sub show ?thesis by (intro card_subset_eq) auto
qed

lemma fermat_little:
  assumes p: "prime_int p" and a: "\<not> p dvd a"
  shows "a ^ nat (p - 1) mod p = 1"
proof -
  have pp: "1 < p" using p by (rule prime_int_gt1)
  let ?f = "\<lambda>x. (a * x) mod p"
  let ?F = "\<Prod>x\<in>{1..<p}. x"
  have inj: "inj_on ?f {1..<p}"
    using mult_mod_perm [OF p a] by (intro eq_card_imp_inj_on) simp_all
  have "?F = (\<Prod>x\<in>?f ` {1..<p}. x)" by (simp only: mult_mod_perm [OF p a])
  also have "\<dots> = (\<Prod>x\<in>{1..<p}. ?f x)" using inj by (simp add: prod.reindex)
  finally have "?F mod p = (\<Prod>x\<in>{1..<p}. (a * x) mod p) mod p" by simp
  also have "\<dots> = (\<Prod>x\<in>{1..<p}. a * x) mod p" by (rule mod_prod_eq)
  also have "(\<Prod>x\<in>{1..<p}. a * x) = a ^ nat (p - 1) * ?F"
    by (simp add: prod.distrib)
  finally have "(a ^ nat (p - 1) * ?F) mod p = ?F mod p" by simp
  then have "p dvd (a ^ nat (p - 1) * ?F - ?F)"
    by (simp only: mod_eq_dvd_iff)
  then have "p dvd (a ^ nat (p - 1) - 1) * ?F" by (simp add: algebra_simps)
  moreover have "\<not> p dvd ?F"
  proof
    assume "p dvd ?F"
    from prime_int_dvd_prod [OF p _ this] obtain x where "x \<in> {1..<p}" "p dvd x" by auto
    then show False by (simp add: zdvd_not_zless)
  qed
  ultimately have "p dvd (a ^ nat (p - 1) - 1)" using prime_int_dvd_mult [OF p] by blast
  then have "a ^ nat (p - 1) mod p = 1 mod p" by (simp add: mod_eq_dvd_iff)
  then show ?thesis using pp by simp
qed


lemma length_pquot: "length (pquot a cs) = length cs - 1"
  by (induction cs) auto

lemma last_pquot: "2 \<le> length cs \<Longrightarrow> last (pquot a cs) = last cs"
proof (induction cs)
  case Nil
  then show ?case by simp
next
  case (Cons c cs)
  show ?case
  proof (cases "2 \<le> length cs")
    case True
    then have "pquot a cs \<noteq> []" using length_pquot [of a cs] by auto
    with Cons True show ?thesis by auto
  next
    case False
    with Cons(2) have "length cs = 1" by simp
    then obtain d where "cs = [d]" by (cases cs) auto
    then show ?thesis by simp
  qed
qed

lemma peval_pquot: "peval cs x = peval cs a + (x - a) * peval (pquot a cs) x"
proof (induction cs)
  case Nil
  then show ?case by simp
next
  case (Cons c cs)
  show ?case
  proof (cases "cs = []")
    case True
    then show ?thesis by simp
  next
    case False
    have "peval (c # cs) x = c + x * (peval cs a + (x - a) * peval (pquot a cs) x)"
      using Cons by simp
    also have "\<dots> = (c + a * peval cs a) + (x - a) * (peval cs a + x * peval (pquot a cs) x)"
      by (simp add: algebra_simps)
    finally show ?thesis using False by simp
  qed
qed

lemma finite_range_filter: "finite {x \<in> {a..<b::int}. Q x}"
  by (rule finite_subset [where B = "{a..<b}"]) auto

lemma root_bound:
  assumes p: "prime_int p"
  shows "cs \<noteq> [] \<Longrightarrow> \<not> p dvd last cs \<Longrightarrow>
    card {x \<in> {0..<p}. p dvd peval cs x} \<le> length cs - 1"
proof (induction "length cs" arbitrary: cs)
  case 0
  then show ?case by simp
next
  case (Suc n)
  let ?R = "\<lambda>cs. {x \<in> {0..<p}. p dvd peval cs x}"
  show ?case
  proof (cases "?R cs = {}")
    case True
    then have "card (?R cs) = 0" by (simp only: card.empty)
    then show ?thesis by simp
  next
    case False
    then obtain a where a: "0 \<le> a" "a < p" "p dvd peval cs a" by auto
    show ?thesis
    proof (cases "n = 0")
      case True
      with Suc(2) obtain c where c: "cs = [c]" by (cases cs) auto
      with Suc(4) a show ?thesis by simp
    next
      case n: False
      let ?q = "pquot a cs"
      have len: "length ?q = n" using Suc(2) length_pquot [of a cs] by simp
      have "last ?q = last cs" using Suc(2) n by (intro last_pquot) simp
      with Suc(4) have lastq: "\<not> p dvd last ?q" by simp
      have qne: "?q \<noteq> []" using len n by auto
      have IH: "card (?R ?q) \<le> n - 1" using Suc(1) [OF len [symmetric] qne lastq] len by simp
      have sub: "?R cs \<subseteq> insert a (?R ?q)"
      proof
        fix x assume "x \<in> ?R cs"
        then have x: "0 \<le> x" "x < p" "p dvd peval cs x" by auto
        have "peval cs x - peval cs a = (x - a) * peval ?q x"
          using peval_pquot [of cs x a] by simp
        moreover have "p dvd peval cs x - peval cs a" using x a by (intro dvd_diff) auto
        ultimately have "p dvd (x - a) * peval ?q x" by simp
        with prime_int_dvd_mult [OF p] have "p dvd (x - a) \<or> p dvd peval ?q x" by blast
        moreover have "p dvd (x - a) \<Longrightarrow> x = a"
        proof -
          assume "p dvd (x - a)"
          then have "x mod p = a mod p" by (simp add: mod_eq_dvd_iff)
          with x a show "x = a" by simp
        qed
        ultimately show "x \<in> insert a (?R ?q)" using x by auto
      qed
      have "finite (insert a (?R ?q))" by (rule finite.insertI) (rule finite_range_filter)
      then have "card (?R cs) \<le> card (insert a (?R ?q))" using sub by (rule card_mono)
      also have "\<dots> \<le> Suc (card (?R ?q))" by (simp add: card_insert_le_m1 card_insert_if)
      also have "\<dots> \<le> n" using IH n by simp
      finally show ?thesis using Suc(2) by simp
    qed
  qed
qed

lemma peval_replicate0: "peval (replicate k 0 @ cs) x = x ^ k * peval cs x"
  by (induction k) (auto simp: algebra_simps)

lemma power_root_bound:
  assumes p: "prime_int p" and n: "0 < n"
  shows "card {x \<in> {0..<p}. p dvd x ^ n - 1} \<le> n"
proof -
  let ?cs = "(- 1) # replicate (n - 1) 0 @ [1::int]"
  have ev: "peval ?cs x = x ^ n - 1" for x
    using n by (simp add: peval_replicate0 power_eq_if)
  have "\<not> p dvd last ?cs" using prime_int_gt1 [OF p] by (simp add: zdvd_not_zless)
  from root_bound [OF p _ this] have "card {x \<in> {0..<p}. p dvd peval ?cs x} \<le> length ?cs - 1"
    by blast
  moreover have "length ?cs - 1 = n" using n by simp
  ultimately show ?thesis by (simp only: ev)
qed

lemma nonresidue_exists:
  assumes p: "odd_prime p"
  shows "\<exists>z. 2 \<le> z \<and> z < p \<and> z ^ nat ((p - 1) div 2) mod p \<noteq> 1"
proof (rule ccontr)
  assume "\<not> ?thesis"
  then have all: "\<And>z. 2 \<le> z \<Longrightarrow> z < p \<Longrightarrow> z ^ nat ((p - 1) div 2) mod p = 1" by blast
  have pr: "prime_int p" "odd p" "1 < p" using p by (auto simp: odd_prime_def prime_int_def)
  then have p3: "3 \<le> p" by (cases "p = 2") auto
  define n where "n = nat ((p - 1) div 2)"
  have n: "0 < n" using p3 by (simp add: n_def)
  have "{1..<p} \<subseteq> {x \<in> {0..<p}. p dvd x ^ n - 1}"
  proof
    fix z assume z: "z \<in> {1..<p}"
    have "z ^ n mod p = 1 mod p"
    proof (cases "z = 1")
      case True
      then show ?thesis by simp
    next
      case False
      with z all [of z] pr show ?thesis by (simp add: n_def)
    qed
    then have "p dvd z ^ n - 1" by (simp only: mod_eq_dvd_iff)
    with z show "z \<in> {x \<in> {0..<p}. p dvd x ^ n - 1}" by simp
  qed
  moreover have "finite {x \<in> {0..<p}. p dvd x ^ n - 1}" by (rule finite_range_filter)
  ultimately have "card {1..<p} \<le> card {x \<in> {0..<p}. p dvd x ^ n - 1}"
    by (rule card_mono [rotated])
  also have "\<dots> \<le> n" by (rule power_root_bound [OF pr(1) n])
  finally have "nat (p - 1) \<le> nat ((p - 1) div 2)" by (simp add: n_def)
  with p3 show False by simp
qed

lemma sqrt_one:
  assumes p: "prime_int p" and u: "(u * u) mod p = 1"
  shows "u mod p = 1 \<or> u mod p = p - 1"
proof -
  have pp: "1 < p" using p by (rule prime_int_gt1)
  from u have "(u * u) mod p = 1 mod p" using pp by simp
  then have "p dvd (u * u - 1)" by (simp only: mod_eq_dvd_iff)
  moreover have "u * u - 1 = (u - 1) * (u + 1)" by (simp add: algebra_simps)
  ultimately have "p dvd (u - 1) \<or> p dvd (u + 1)" using prime_int_dvd_mult [OF p] by simp
  then show ?thesis
  proof
    assume "p dvd (u - 1)"
    then have "u mod p = 1 mod p" by (simp only: mod_eq_dvd_iff)
    then show ?thesis using pp by simp
  next
    assume "p dvd (u + 1)"
    then have "p dvd (u + 1) - p" by (intro dvd_diff) auto
    moreover have "(u + 1) - p = u - (p - 1)" by simp
    ultimately have "p dvd (u - (p - 1))" by simp
    then have "u mod p = (p - 1) mod p" by (simp only: mod_eq_dvd_iff)
    moreover have "(p - 1) mod p = p - 1" using pp by (intro mod_pos_pos_trivial) auto
    ultimately show ?thesis by simp
  qed
qed

lemma half_power:
  assumes p: "odd_prime p"
  shows "2 * nat ((p - 1) div 2) = nat (p - 1)"
proof -
  have "odd p" "1 < p" using p by (auto simp: odd_prime_def prime_int_def)
  then show ?thesis by (auto elim!: oddE)
qed

lemma euler_pm:
  assumes p: "odd_prime p" and a: "\<not> p dvd a"
  shows "a ^ nat ((p - 1) div 2) mod p = 1 \<or> a ^ nat ((p - 1) div 2) mod p = p - 1"
proof -
  have pr: "prime_int p" using p by (simp add: odd_prime_def)
  let ?v = "a ^ nat ((p - 1) div 2)"
  have "?v * ?v = a ^ nat (p - 1)"
    using half_power [OF p] by (metis power2_eq_square power_mult mult.commute)
  then have "(?v * ?v) mod p = 1" using fermat_little [OF pr a] by simp
  from sqrt_one [OF pr this] show ?thesis .
qed

lemma legendre_alt:
  assumes "1 < p"
  shows "legendre a p =
    (if a mod p = 0 then 0
     else if a ^ nat ((p - 1) div 2) mod p = 1 then 1
     else if a ^ nat ((p - 1) div 2) mod p = 0 then 0 else - 1)"
  using assms by (simp add: legendre_def Let_def modM_pos powM_def power_mod)

lemma legendre_cases:
  assumes p: "odd_prime p"
  shows "legendre a p =
    (if p dvd a then 0 else if a ^ nat ((p - 1) div 2) mod p = 1 then 1 else - 1)"
proof -
  have pr: "prime_int p" "1 < p" using p by (auto simp: odd_prime_def prime_int_def)
  show ?thesis
  proof (cases "p dvd a")
    case True
    then have "a mod p = 0" by (simp only: mod_eq_0_iff_dvd)
    with True show ?thesis using pr by (simp add: legendre_alt)
  next
    case False
    then have "\<not> p dvd a ^ nat ((p - 1) div 2)" using prime_int_dvd_power [OF pr(1)] by blast
    with False have "a mod p \<noteq> 0" "a ^ nat ((p - 1) div 2) mod p \<noteq> 0"
      by (simp_all only: mod_eq_0_iff_dvd not_False_eq_True)
    with False show ?thesis using pr by (simp add: legendre_alt)
  qed
qed

lemma legendre_nonresidue:
  assumes p: "odd_prime p" and "legendre z p = - 1"
  shows "z ^ nat ((p - 1) div 2) mod p = p - 1"
proof -
  from assms have "\<not> p dvd z" "z ^ nat ((p - 1) div 2) mod p \<noteq> 1"
    by (auto simp: legendre_cases split: if_splits)
  with euler_pm [OF p] show ?thesis by blast
qed

lemma find_nonresidue_upto:
  assumes "legendre z0 p = - 1"
  shows "z \<le> z0 \<Longrightarrow> \<exists>z'. find_nonresidue z p = Some z' \<and> legendre z' p = - 1"
proof (induction "nat (z0 - z)" arbitrary: z)
  case 0
  then have "z = z0" by simp
  with assms show ?case by (subst find_nonresidue.simps) simp
next
  case (Suc k)
  show ?case
  proof (cases "legendre z p = - 1")
    case True
    then show ?thesis by (subst find_nonresidue.simps) simp
  next
    case False
    from Suc(2,3) have "k = nat (z0 - (z + 1))" "z + 1 \<le> z0" by auto
    from Suc(1) [OF this] False show ?thesis by (subst find_nonresidue.simps) simp
  qed
qed

lemma find_nonresidue_prime:
  assumes p: "odd_prime p"
  shows "\<exists>z. find_nonresidue 2 p = Some z \<and> legendre z p = - 1"
proof -
  from nonresidue_exists [OF p] obtain z0 where
    z0: "2 \<le> z0" "z0 < p" "z0 ^ nat ((p - 1) div 2) mod p \<noteq> 1" by blast
  then have "\<not> p dvd z0" by (simp add: zdvd_not_zless)
  with z0 have "legendre z0 p = - 1" by (simp add: legendre_cases [OF p])
  from find_nonresidue_upto [OF this z0(1)] show ?thesis .
qed

lemma factor_twos_spec:
  "0 < q \<Longrightarrow> \<exists>q' s'. factor_twos q s = Some (q', s') \<and> odd q' \<and> 0 < q' \<and> s \<le> s'
      \<and> q' * 2 ^ (s' - s) = q"
proof (induction q s rule: factor_twos.induct)
  case (1 q s)
  show ?case
  proof (cases "even q")
    case False
    with 1(2) have "factor_twos q s = Some (q, s)" by (subst factor_twos.simps) simp
    moreover have "q * 2 ^ (s - s) = q" by simp
    ultimately show ?thesis using False 1(2) by blast
  next
    case True
    have "0 < q div 2" using 1(2) True by (elim evenE) simp
    moreover have "q \<noteq> 0" using 1(2) by simp
    ultimately have "\<exists>q' s'. factor_twos (q div 2) (Suc s) = Some (q', s') \<and> odd q' \<and> 0 < q'
        \<and> Suc s \<le> s' \<and> q' * 2 ^ (s' - Suc s) = q div 2"
      using True by (rule 1(1) [rotated 2])
    then obtain q' s' where
      r: "factor_twos (q div 2) (Suc s) = Some (q', s')" "odd q'" "0 < q'" "Suc s \<le> s'"
      "q' * 2 ^ (s' - Suc s) = q div 2" by blast
    have "s' - s = Suc (s' - Suc s)" using r(4) by simp
    then have "q' * 2 ^ (s' - s) = q' * 2 ^ (s' - Suc s) * 2" by simp
    also have "\<dots> = (q div 2) * 2" by (simp only: r(5))
    also have "\<dots> = q" using True by simp
    finally have eq: "q' * 2 ^ (s' - s) = q" .
    have "factor_twos q s = factor_twos (q div 2) (Suc s)"
      using True 1(2) by (subst factor_twos.simps) simp
    with r(1) have "factor_twos q s = Some (q', s')" by simp
    moreover have "s \<le> s'" using r(4) by simp
    ultimately show ?thesis using r(2,3) eq by blast
  qed
qed

section \<open>Square roots\<close>

lemma find_i_spec:
  assumes p: "1 < p"
  shows "b = t ^ (2 ^ i) mod p \<Longrightarrow> i \<le> m \<Longrightarrow>
    i \<le> find_i p b i m \<and> find_i p b i m \<le> m
    \<and> (find_i p b i m < m \<longrightarrow> t ^ (2 ^ find_i p b i m) mod p = 1)
    \<and> (\<forall>j. i \<le> j \<and> j < find_i p b i m \<longrightarrow> t ^ (2 ^ j) mod p \<noteq> 1)"
proof (induction p b i m rule: find_i.induct)
  case (1 p b i m)
  show ?case
  proof (cases "i < m")
    case False
    then have "find_i p b i m = i" by (subst find_i.simps) simp
    with 1(3) False show ?thesis by simp
  next
    case lt: True
    show ?thesis
    proof (cases "b = 1")
      case True
      with lt have "find_i p b i m = i" by (subst find_i.simps) simp
      with 1(2,3) True lt show ?thesis by simp
    next
      case False
      with lt have eq: "find_i p b i m = find_i p (powM b 2 p) (Suc i) m"
        by (subst find_i.simps) simp
      have "powM b 2 p = (t ^ (2 ^ i)) ^ 2 mod p"
        by (simp add: powM_def 1(2) power_mod)
      also have "(t ^ (2 ^ i)) ^ 2 = t ^ (2 ^ Suc i)"
        by (simp add: power_mult [symmetric] mult.commute)
      finally have b': "powM b 2 p = t ^ (2 ^ Suc i) mod p" .
      from 1(1) [OF lt False b'] lt
      have IH: "Suc i \<le> find_i p b i m" "find_i p b i m \<le> m"
        "find_i p b i m < m \<longrightarrow> t ^ (2 ^ find_i p b i m) mod p = 1"
        "\<forall>j. Suc i \<le> j \<and> j < find_i p b i m \<longrightarrow> t ^ (2 ^ j) mod p \<noteq> 1"
        by (simp_all add: eq)
      have "t ^ (2 ^ j) mod p \<noteq> 1" if "i \<le> j" "j < find_i p b i m" for j
      proof (cases "j = i")
        case True
        with False 1(2) show ?thesis by simp
      next
        case False
        with that IH(4) show ?thesis by simp
      qed
      with IH show ?thesis by simp
    qed
  qed
qed

lemma square_times_eq:
  "square_times p b n mod p = b ^ (2 ^ n) mod p"
proof (induction n arbitrary: b)
  case 0
  then show ?case by simp
next
  case (Suc n)
  have "square_times p b (Suc n) mod p = (powM b 2 p) ^ (2 ^ n) mod p"
    using Suc by simp
  also have "\<dots> = (b ^ 2) ^ (2 ^ n) mod p" by (simp add: powM_def power_mod)
  also have "(b ^ 2) ^ (2 ^ n) = b ^ (2 ^ Suc n)" by (simp add: power_mult [symmetric])
  finally show ?case .
qed


lemma minus_one_sq:
  assumes "1 < (p::int)" "u mod p = p - 1" "v mod p = p - 1"
  shows "(u * v) mod p = 1"
proof -
  have "(u * v) mod p = ((u mod p) * (v mod p)) mod p" by (rule mod_mult_eq [symmetric])
  also have "\<dots> = ((p - 1) * (p - 1)) mod p" by (simp only: assms)
  also have "(p - 1) * (p - 1) = 1 + p * (p - 2)" by (simp add: algebra_simps)
  also have "(1 + p * (p - 2)) mod p = 1" using assms(1) by simp
  finally show ?thesis .
qed

lemma ts_loop_correct:
  assumes p: "odd_prime p"
  shows "0 < m \<Longrightarrow> 0 \<le> x \<Longrightarrow> x < p \<Longrightarrow> 0 \<le> t \<Longrightarrow> t < p \<Longrightarrow> 0 \<le> c \<Longrightarrow> c < p \<Longrightarrow>
    (x * x) mod p = (a * t) mod p \<Longrightarrow>
    c ^ (2 ^ (m - 1)) mod p = p - 1 \<Longrightarrow>
    t ^ (2 ^ (m - 1)) mod p = 1 \<Longrightarrow>
    \<exists>y. ts_loop p x t c m = Inr y \<and> 0 \<le> y \<and> y < p \<and> (y * y) mod p = a mod p"
proof (induction m arbitrary: x t c rule: less_induct)
  case (less m)
  have pr: "prime_int p" "1 < p" using p by (auto simp: odd_prime_def prime_int_def)
  show ?case
  proof (cases "t = 1")
    case True
    then have "ts_loop p x t c m = Inr x" by (subst ts_loop.simps) simp
    moreover have "(x * x) mod p = a mod p" using less(9) True by simp
    ultimately show ?thesis using less(3,4) by blast
  next
    case t1: False
    define r where "r = find_i p (powM t 2 p) 1 m"
    have b0: "powM t 2 p = t ^ (2 ^ 1) mod p" by (simp add: powM_def)
    have m1: "1 \<le> m" using less(2) by simp
    from find_i_spec [OF pr(2) b0 m1]
    have r: "1 \<le> r" "r \<le> m" "r < m \<longrightarrow> t ^ (2 ^ r) mod p = 1"
      "\<forall>j. 1 \<le> j \<and> j < r \<longrightarrow> t ^ (2 ^ j) mod p \<noteq> 1"
      by (simp_all add: r_def)
    have tmod: "t mod p = t" using less(5,6) by simp
    have t0: "t ^ (2 ^ 0) mod p \<noteq> 1" using t1 tmod by simp
    have m2: "2 \<le> m"
    proof (rule ccontr)
      assume "\<not> 2 \<le> m"
      with less(2) have "m - 1 = 0" by simp
      with less(11) t0 show False by simp
    qed
    have rm: "r < m"
    proof (rule ccontr)
      assume "\<not> r < m"
      with r(2) have "r = m" by simp
      with r(4) m2 have "t ^ (2 ^ (m - 1)) mod p \<noteq> 1" by simp
      with less(11) show False by simp
    qed
    with r(3) have tr: "t ^ (2 ^ r) mod p = 1" by simp
    define u where "u = t ^ (2 ^ (r - 1))"
    have u1: "u mod p \<noteq> 1"
    proof (cases "r = 1")
      case True
      with t0 show ?thesis by (simp add: u_def)
    next
      case False
      with r(1,4) show ?thesis by (simp add: u_def)
    qed
    have rr: "r = Suc (r - 1)" using r(1) by simp
    have "u * u = t ^ (2 ^ (r - 1) * 2)" by (simp add: u_def power_mult power2_eq_square)
    also have "2 ^ (r - 1) * 2 = (2::nat) ^ r" by (subst (2) rr) simp
    finally have "(u * u) mod p = 1" using tr by simp
    from sqrt_one [OF pr(1) this] u1 have um: "u mod p = p - 1" by simp
    define b where "b = square_times p c (m - r - 1)"
    define x' where "x' = mulM x b p"
    define bb where "bb = mulM b b p"
    define t' where "t' = mulM t bb p"
    have step: "ts_loop p x t c m = ts_loop p x' t' bb r"
      using t1 rm unfolding r_def x'_def t'_def bb_def b_def
      by (subst ts_loop.simps) (simp add: Let_def)
    have bmod: "b mod p = c ^ (2 ^ (m - r - 1)) mod p" by (simp add: b_def square_times_eq)
    have "bb = (b mod p) * (b mod p) mod p" using pr by (simp add: bb_def mulM_def modM_pos mod_mult_eq)
    also have "\<dots> = (c ^ (2 ^ (m - r - 1)) * c ^ (2 ^ (m - r - 1))) mod p"
      by (simp only: bmod mod_mult_eq)
    also have "c ^ (2 ^ (m - r - 1)) * c ^ (2 ^ (m - r - 1)) = c ^ (2 ^ (m - r - 1) * 2)"
      by (simp add: power_mult power2_eq_square)
    also have "2 ^ (m - r - 1) * 2 = (2::nat) ^ (m - r)"
    proof -
      have "m - r = Suc (m - r - 1)" using rm by simp
      then show ?thesis by (metis power_Suc2)
    qed
    finally have bbmod: "bb = c ^ (2 ^ (m - r)) mod p" .
    have rng: "0 \<le> x'" "x' < p" "0 \<le> t'" "t' < p" "0 \<le> bb" "bb < p"
      using pr by (simp_all add: x'_def t'_def bb_def mulM_def modM_pos)
    have "bb ^ (2 ^ (r - 1)) mod p = (c ^ (2 ^ (m - r))) ^ (2 ^ (r - 1)) mod p"
      by (simp add: bbmod power_mod)
    also have "(c ^ (2 ^ (m - r))) ^ (2 ^ (r - 1)) = c ^ (2 ^ (m - r) * 2 ^ (r - 1))"
      by (simp add: power_mult)
    also have "2 ^ (m - r) * 2 ^ (r - 1) = (2::nat) ^ (m - 1)"
    proof -
      have "(m - r) + (r - 1) = m - 1" using rm r(1) by simp
      then show ?thesis by (simp only: power_add [symmetric])
    qed
    finally have inv_c: "bb ^ (2 ^ (r - 1)) mod p = p - 1" using less(10) by simp
    have "t' ^ (2 ^ (r - 1)) mod p = (t * bb) ^ (2 ^ (r - 1)) mod p"
      using pr by (simp add: t'_def mulM_def modM_pos power_mod)
    also have "\<dots> = (u * bb ^ (2 ^ (r - 1))) mod p" by (simp add: u_def power_mult_distrib)
    also have "\<dots> = 1" by (rule minus_one_sq [OF pr(2) um inv_c])
    finally have inv_t: "t' ^ (2 ^ (r - 1)) mod p = 1" .
    have "(x' * x') mod p = ((x * b) * (x * b)) mod p"
      using pr by (simp add: x'_def mulM_def modM_pos mod_mult_eq)
    also have "(x * b) * (x * b) = (x * x) * (b * b)" by (simp add: algebra_simps)
    also have "((x * x) * (b * b)) mod p = ((x * x) mod p * (b * b)) mod p"
      by (simp only: mod_mult_left_eq)
    also have "\<dots> = ((a * t) mod p * (b * b)) mod p" by (simp only: less(9))
    also have "\<dots> = ((a * t) * (b * b)) mod p" by (simp only: mod_mult_left_eq)
    also have "(a * t) * (b * b) = a * (t * (b * b))" by (simp add: algebra_simps)
    also have "(a * (t * (b * b))) mod p = (a * ((t * (b * b)) mod p)) mod p"
      by (simp only: mod_mult_right_eq)
    also have "(t * (b * b)) mod p = (t * ((b * b) mod p)) mod p"
      by (simp only: mod_mult_right_eq)
    also have "\<dots> = t'" using pr by (simp add: t'_def bb_def mulM_def modM_pos)
    finally have inv_x: "(x' * x') mod p = (a * t') mod p" .
    from less(1) [OF rm _ rng(1,2,3,4,5,6) inv_x inv_c inv_t] r(1)
    show ?thesis by (simp add: step)
  qed
qed


lemma and_3_mod_4: "and (x::int) 3 = x mod 4"
proof -
  have "and x (mask 2) = take_bit 2 x" by (simp only: take_bit_eq_mask)
  moreover have "mask 2 = (3::int)" by (simp add: mask_eq_exp_minus_1)
  ultimately show ?thesis by (simp add: take_bit_eq_mod)
qed

lemma residue_facts:
  assumes p: "odd_prime p" and lg: "legendre a p = 1"
  shows "modM a p \<noteq> 0" "legendre (modM a p) p = 1"
    "(modM a p) ^ nat ((p - 1) div 2) mod p = 1" "0 \<le> modM a p" "modM a p < p"
proof -
  have pr: "prime_int p" "1 < p" using p by (auto simp: odd_prime_def prime_int_def)
  from lg have nd: "\<not> p dvd a" and e: "a ^ nat ((p - 1) div 2) mod p = 1"
    by (auto simp: legendre_cases [OF p] split: if_splits)
  have A: "modM a p = a mod p" using pr by (simp add: modM_pos)
  show "modM a p \<noteq> 0" using nd by (simp add: A dvd_eq_mod_eq_0)
  show "legendre (modM a p) p = 1" using lg pr by (simp add: legendre_def modM_idem)
  show "(modM a p) ^ nat ((p - 1) div 2) mod p = 1" using e by (simp add: A power_mod)
  show "0 \<le> modM a p" "modM a p < p" using pr by (simp_all add: A)
qed

lemma sqrt_fast_path:
  assumes p: "odd_prime p" and lg: "legendre a p = 1" and p3: "p mod 4 = 3"
  shows "sqrtModP a p = Some (Inr ((a mod p) ^ nat ((p + 1) div 4) mod p))"
    and "(((a mod p) ^ nat ((p + 1) div 4) mod p) * ((a mod p) ^ nat ((p + 1) div 4) mod p)) mod p
      = a mod p"
proof -
  have pr: "prime_int p" "1 < p" using p by (auto simp: odd_prime_def prime_int_def)
  note rf = residue_facts [OF p lg]
  have A: "modM a p = a mod p" using pr by (simp add: modM_pos)
  have "(p - 3) mod 4 = 0" using p3 by presburger
  then have fast: "and (p - 3) 3 = 0" using and_3_mod_4 [of "p - 3"] by simp
  show "sqrtModP a p = Some (Inr ((a mod p) ^ nat ((p + 1) div 4) mod p))"
    using rf(1,2) fast by (simp add: sqrtModP_def Let_def powM_def A)
  define k where "k = nat ((p + 1) div 4)"
  define n where "n = nat ((p - 1) div 2)"
  have kn: "2 * k = Suc n"
  proof -
    define j where "j = p div 4"
    have pj: "p = 4 * j + 3" using p3 unfolding j_def by presburger
    have j0: "0 \<le> j" using pr(2) unfolding j_def by simp
    have "(p + 1) div 4 = j + 1" "(p - 1) div 2 = 2 * j + 1" unfolding pj by simp_all
    then show ?thesis using j0 by (simp add: k_def n_def nat_add_distrib nat_mult_distrib)
  qed
  have "(((a mod p) ^ k mod p) * ((a mod p) ^ k mod p)) mod p = ((a mod p) ^ k * (a mod p) ^ k) mod p"
    by (simp only: mod_mult_eq)
  also have "(a mod p) ^ k * (a mod p) ^ k = (a mod p) ^ (2 * k)"
    by (simp add: power_add [symmetric] mult_2)
  also have "\<dots> = (a mod p) * (a mod p) ^ n" by (simp only: kn power_Suc)
  also have "((a mod p) * (a mod p) ^ n) mod p = ((a mod p) * ((a mod p) ^ n mod p)) mod p"
    by (simp only: mod_mult_right_eq)
  also have "\<dots> = a mod p" using rf(3) by (simp add: A n_def)
  finally show "(((a mod p) ^ nat ((p + 1) div 4) mod p) * ((a mod p) ^ nat ((p + 1) div 4) mod p)) mod p
      = a mod p" by (simp only: k_def)
qed

lemma sqrt_general_path:
  assumes p: "odd_prime p" and lg: "legendre a p = 1" and p3: "p mod 4 \<noteq> 3"
  shows "\<exists>y. sqrtModP a p = Some (Inr y) \<and> 0 \<le> y \<and> y < p \<and> (y * y) mod p = a mod p"
proof -
  have pr: "prime_int p" "1 < p" "odd p" using p by (auto simp: odd_prime_def prime_int_def)
  note rf = residue_facts [OF p lg]
  define A where "A = modM a p"
  have Amod: "A = a mod p" using pr by (simp add: A_def modM_pos)
  have "(p - 3) mod 4 \<noteq> 0" using p3 by presburger
  then have slow: "and (p - 3) 3 \<noteq> 0" using and_3_mod_4 [of "p - 3"] by simp
  from factor_twos_spec [of "p - 1" 0] pr obtain q s where
    qs: "factor_twos (p - 1) 0 = Some (q, s)" "odd q" "0 < q" "q * 2 ^ s = p - 1" by auto
  from find_nonresidue_prime [OF p] obtain z where
    z: "find_nonresidue 2 p = Some z" "legendre z p = - 1" by blast
  define n where "n = nat ((p - 1) div 2)"
  have s0: "0 < s"
  proof (rule ccontr)
    assume "\<not> 0 < s"
    with qs(4) have "q = p - 1" by simp
    with qs(2) pr(3) show False by simp
  qed
  then have ss: "s = Suc (s - 1)" by simp
  have "p - 1 = (q * 2 ^ (s - 1)) * 2" using qs(4) by (subst (asm) ss) simp
  then have "(p - 1) div 2 = q * 2 ^ (s - 1)" by simp
  then have n: "n = nat q * 2 ^ (s - 1)" using qs(3) by (simp add: n_def nat_mult_distrib nat_power_eq)
  define x0 where "x0 = powM A ((q + 1) div 2) p"
  define t0 where "t0 = powM A q p"
  define c0 where "c0 = powM z q p"
  have run: "sqrtModP a p = Some (ts_loop p x0 t0 c0 s)"
    using rf(1,2) slow qs(1) z(1) by (simp add: sqrtModP_def Let_def A_def x0_def t0_def c0_def)
  have rng: "0 \<le> x0" "x0 < p" "0 \<le> t0" "t0 < p" "0 \<le> c0" "c0 < p"
    using pr by (simp_all add: x0_def t0_def c0_def powM_def)
  have "c0 ^ (2 ^ (s - 1)) mod p = (z ^ nat q) ^ (2 ^ (s - 1)) mod p"
    by (simp add: c0_def powM_def power_mod)
  also have "(z ^ nat q) ^ (2 ^ (s - 1)) = z ^ n" by (simp add: n power_mult)
  also have "z ^ n mod p = p - 1" using legendre_nonresidue [OF p z(2)] by (simp add: n_def)
  finally have inv_c: "c0 ^ (2 ^ (s - 1)) mod p = p - 1" .
  have "t0 ^ (2 ^ (s - 1)) mod p = (A ^ nat q) ^ (2 ^ (s - 1)) mod p"
    by (simp add: t0_def powM_def power_mod)
  also have "(A ^ nat q) ^ (2 ^ (s - 1)) = A ^ n" by (simp add: n power_mult)
  also have "A ^ n mod p = 1" using rf(3) by (simp add: A_def n_def)
  finally have inv_t: "t0 ^ (2 ^ (s - 1)) mod p = 1" .
  define h where "h = nat ((q + 1) div 2)"
  have h: "2 * h = Suc (nat q)"
  proof -
    from qs(2) obtain j where qj: "q = 2 * j + 1" by (elim oddE)
    have j0: "0 \<le> j" using qs(3) unfolding qj by simp
    have "(q + 1) div 2 = j + 1" unfolding qj by simp
    then show ?thesis using j0 by (simp add: h_def qj nat_add_distrib nat_mult_distrib)
  qed
  have "(x0 * x0) mod p = (A ^ h * A ^ h) mod p"
    by (simp add: x0_def powM_def h_def mod_mult_eq)
  also have "A ^ h * A ^ h = A ^ (2 * h)" by (simp add: power_add [symmetric] mult_2)
  also have "\<dots> = A * A ^ nat q" by (simp only: h power_Suc)
  also have "(A * A ^ nat q) mod p = (A * (A ^ nat q mod p)) mod p"
    by (simp only: mod_mult_right_eq)
  also have "\<dots> = (A * t0) mod p" by (simp add: t0_def powM_def)
  finally have inv_x: "(x0 * x0) mod p = (A * t0) mod p" .
  from ts_loop_correct [OF p s0 rng inv_x inv_c inv_t] obtain y where
    "ts_loop p x0 t0 c0 s = Inr y" "0 \<le> y" "y < p" "(y * y) mod p = A mod p" by blast
  then show ?thesis using run by (simp add: Amod)
qed

text \<open>
  C5. For an odd prime \<open>p\<close> and an input \<open>a\<close> with Legendre symbol 1, \<open>sqrtModP\<close> returns,
  without error, a value \<open>y\<close> in \<open>[0, p)\<close> with \<open>y^2 = a\<close> modulo \<open>p\<close>; for \<open>p = 3\<close> modulo 4
  it is the fast path's \<open>a^((p+1)/4) mod p\<close>, and otherwise the Tonelli--Shanks descent
  (whose two unbounded loops end).
\<close>

theorem sqrtModP_residue:
  assumes "odd_prime p" and "legendre a p = 1"
  shows "(\<exists>y. sqrtModP a p = Some (Inr y) \<and> 0 \<le> y \<and> y < p \<and> (y * y) mod p = a mod p)
       \<and> (p mod 4 = 3 \<longrightarrow>
            sqrtModP a p = Some (Inr ((a mod p) ^ nat ((p + 1) div 4) mod p)))"
proof (cases "p mod 4 = 3")
  case True
  have "0 < p" using assms(1) by (simp add: odd_prime_def prime_int_def)
  then have "0 \<le> (a mod p) ^ nat ((p + 1) div 4) mod p" "(a mod p) ^ nat ((p + 1) div 4) mod p < p"
    by simp_all
  with sqrt_fast_path [OF assms True] True show ?thesis by blast
next
  case False
  with sqrt_general_path [OF assms False] show ?thesis by blast
qed

theorem sqrtModP_residue_witness:
  "odd_prime 13 \<and> legendre 10 13 = 1 \<and> sqrtModP 10 13 = Some (Inr 7)
   \<and> (\<exists>y. sqrtModP 10 13 = Some (Inr y) \<and> 0 \<le> y \<and> y < 13 \<and> (y * y) mod 13 = 10 mod 13)"
proof -
  have h: "odd_prime 13" "legendre 10 13 = 1" by code_simp+
  have v: "sqrtModP 10 13 = Some (Inr 7)" by code_simp
  from sqrtModP_residue [OF h] h v show ?thesis by blast
qed

text \<open>
  C4 (as amended). For an odd prime \<open>p\<close> and an input whose Legendre symbol is not 1,
  \<open>sqrtModP\<close> returns the root 0 without error when the input is a multiple of \<open>p\<close>,
  and the non-residue error otherwise.
\<close>

theorem sqrtModP_no_root:
  assumes "odd_prime p" "legendre a p \<noteq> 1"
  shows "sqrtModP a p = Some (if a mod p = 0 then Inr 0 else Inl NonResidue)"
proof -
  have p: "0 < p" using assms(1) by (simp add: odd_prime_def prime_int_def)
  have "legendre (modM a p) p = legendre a p"
    by (simp add: legendre_def modM_idem [OF p])
  with assms(2) show ?thesis
    by (simp add: sqrtModP_def Let_def modM_pos [OF p])
qed

theorem sqrtModP_no_root_witness:
  "odd_prime 11 \<and> legendre 2 11 \<noteq> 1 \<and> sqrtModP 2 11 = Some (Inl NonResidue)"
proof -
  have h: "odd_prime 11" "legendre 2 11 \<noteq> 1" by code_simp+
  from sqrtModP_no_root [OF h] h show ?thesis by simp
qed

text \<open>
  C4 as stated fails at \<open>a = 0\<close>, \<open>p = 11\<close>: the Legendre symbol is 0, yet
  \<open>sqrtModP\<close> returns the value 0 and no error.
\<close>

theorem sqrtModP_zero_counterexample:
  "odd_prime 11 \<and> legendre 0 11 \<noteq> 1 \<and> sqrtModP 0 11 = Some (Inr 0)"
  by code_simp

section \<open>The point count\<close>

lemma residue_has_root:
  assumes "odd_prime p" and "legendre a p = 1"
  shows "\<exists>y. 0 \<le> y \<and> y < p \<and> (y * y) mod p = a mod p"
proof (cases "p mod 4 = 3")
  case True
  have "0 < p" using assms(1) by (simp add: odd_prime_def prime_int_def)
  then have "0 \<le> (a mod p) ^ nat ((p + 1) div 4) mod p" "(a mod p) ^ nat ((p + 1) div 4) mod p < p"
    by simp_all
  with sqrt_fast_path(2) [OF assms True] show ?thesis by blast
next
  case False
  with sqrt_general_path [OF assms False] show ?thesis by blast
qed

lemma square_roots_of_zero:
  assumes p: "odd_prime p" and t: "p dvd t"
  shows "{y \<in> {0..<p}. (y * y) mod p = t mod p} = {0}"
proof -
  have pr: "prime_int p" "1 < p" using p by (auto simp: odd_prime_def prime_int_def)
  have t0: "t mod p = 0" using t by (simp only: mod_eq_0_iff_dvd)
  show ?thesis
  proof (intro set_eqI iffI)
    fix y assume "y \<in> {y \<in> {0..<p}. (y * y) mod p = t mod p}"
    then have y: "0 \<le> y" "y < p" "(y * y) mod p = 0" using t0 by auto
    from y(3) have "p dvd y * y" by (simp only: mod_eq_0_iff_dvd)
    with prime_int_dvd_mult [OF pr(1)] have "p dvd y" by blast
    with y(1,2) have "y = 0" by (cases "y = 0") (auto simp: zdvd_not_zless)
    then show "y \<in> {0}" by simp
  next
    fix y :: int assume "y \<in> {0}"
    then show "y \<in> {y \<in> {0..<p}. (y * y) mod p = t mod p}" using pr t0 by simp
  qed
qed

lemma square_roots_of_residue:
  assumes p: "odd_prime p" and lg: "legendre t p = 1"
  shows "card {y \<in> {0..<p}. (y * y) mod p = t mod p} = 2"
proof -
  have pr: "prime_int p" "1 < p" "odd p" using p by (auto simp: odd_prime_def prime_int_def)
  from lg have nd: "\<not> p dvd t" by (auto simp: legendre_cases [OF p] split: if_splits)
  from residue_has_root [OF p lg] obtain y0 where
    y0: "0 \<le> y0" "y0 < p" "(y0 * y0) mod p = t mod p" by blast
  have "y0 \<noteq> 0"
  proof
    assume "y0 = 0"
    with y0(3) have "t mod p = 0" by simp
    with nd show False by (simp only: mod_eq_0_iff_dvd)
  qed
  with y0 have pos: "0 < y0" by simp
  have "{y \<in> {0..<p}. (y * y) mod p = t mod p} = {y0, p - y0}"
  proof (intro set_eqI iffI)
    fix y assume "y \<in> {y \<in> {0..<p}. (y * y) mod p = t mod p}"
    then have y: "0 \<le> y" "y < p" "(y * y) mod p = (y0 * y0) mod p" using y0(3) by auto
    from y(3) have "p dvd (y * y - y0 * y0)" by (simp only: mod_eq_dvd_iff)
    moreover have "y * y - y0 * y0 = (y - y0) * (y + y0)" by (simp add: algebra_simps)
    ultimately have "p dvd (y - y0) \<or> p dvd (y + y0)" using prime_int_dvd_mult [OF pr(1)] by simp
    then show "y \<in> {y0, p - y0}"
    proof
      assume "p dvd (y - y0)"
      then have "y mod p = y0 mod p" by (simp only: mod_eq_dvd_iff)
      with y y0 show ?thesis by simp
    next
      assume d: "p dvd (y + y0)"
      have "0 < y + y0" "y + y0 < 2 * p" using y y0 pos by simp_all
      from d obtain k where k: "y + y0 = p * k" by (elim dvdE)
      with \<open>0 < y + y0\<close> \<open>y + y0 < 2 * p\<close> pr(2) have "0 < k" "k < 2"
        by (simp_all add: zero_less_mult_iff)
      then have "k = 1" by simp
      with k show ?thesis by simp
    qed
  next
    fix y assume "y \<in> {y0, p - y0}"
    then show "y \<in> {y \<in> {0..<p}. (y * y) mod p = t mod p}"
    proof
      assume "y = y0"
      with y0 show ?thesis by simp
    next
      assume "y \<in> {p - y0}"
      then have y: "y = p - y0" by simp
      have "(p - y0) * (p - y0) = y0 * y0 + p * (p - 2 * y0)" by (simp add: algebra_simps)
      then have "((p - y0) * (p - y0)) mod p = (y0 * y0) mod p" by simp
      with y y0 pos show ?thesis by simp
    qed
  qed
  moreover have "y0 \<noteq> p - y0"
  proof
    assume "y0 = p - y0"
    then have "p = 2 * y0" by simp
    with pr(3) show False by simp
  qed
  ultimately show ?thesis by simp
qed

lemma square_roots_of_nonresidue:
  assumes p: "odd_prime p" and lg: "legendre t p = - 1"
  shows "{y \<in> {0..<p}. (y * y) mod p = t mod p} = {}"
proof (rule ccontr)
  assume "{y \<in> {0..<p}. (y * y) mod p = t mod p} \<noteq> {}"
  then obtain y where y: "(y * y) mod p = t mod p" by blast
  have pr: "prime_int p" "1 < p" using p by (auto simp: odd_prime_def prime_int_def)
  from lg have nd: "\<not> p dvd t" and e: "t ^ nat ((p - 1) div 2) mod p \<noteq> 1"
    by (auto simp: legendre_cases [OF p] split: if_splits)
  have "\<not> p dvd y"
  proof
    assume "p dvd y"
    then have "p dvd y * y" by simp
    then have "(y * y) mod p = 0" by (simp only: mod_eq_0_iff_dvd)
    with y have "t mod p = 0" by simp
    with nd show False by (simp only: mod_eq_0_iff_dvd)
  qed
  define n where "n = nat ((p - 1) div 2)"
  have "t ^ n mod p = (t mod p) ^ n mod p" by (simp only: power_mod)
  also have "\<dots> = (y * y) ^ n mod p" by (simp only: y [symmetric] power_mod)
  also have "(y * y) ^ n = y ^ (2 * n)" by (simp add: power_mult power2_eq_square)
  also have "2 * n = nat (p - 1)" unfolding n_def by (rule half_power [OF p])
  also have "y ^ nat (p - 1) mod p = 1" by (rule fermat_little [OF pr(1) \<open>\<not> p dvd y\<close>])
  finally show False using e by (simp add: n_def)
qed

lemma square_roots_count:
  assumes p: "odd_prime p"
  shows "int (card {y \<in> {0..<p}. (y * y) mod p = t mod p})
    = (if legendre t p = 0 then 1 else if legendre t p = 1 then 2 else 0)"
proof -
  have "legendre t p = 0 \<or> legendre t p = 1 \<or> legendre t p = - 1"
    by (simp add: legendre_cases [OF p])
  then consider "legendre t p = 0" | "legendre t p = 1" | "legendre t p = - 1"
    by blast
  then show ?thesis
  proof cases
    case 1
    then have "p dvd t" by (auto simp: legendre_cases [OF p] split: if_splits)
    have "card {y \<in> {0..<p}. (y * y) mod p = t mod p} = 1"
      by (simp only: square_roots_of_zero [OF p \<open>p dvd t\<close>]) simp
    with 1 show ?thesis by simp
  next
    case 2
    with square_roots_of_residue [OF p 2] show ?thesis by simp
  next
    case 3
    have "card {y \<in> {0..<p}. (y * y) mod p = t mod p} = 0"
      by (simp only: square_roots_of_nonresidue [OF p 3] card.empty)
    with 3 show ?thesis by simp
  qed
qed

lemma rhs_eq:
  assumes "0 < curve_P c"
  shows "rhs c x = (x * x * x + curve_A c * x + curve_B c) mod curve_P c"
  using assms by (simp add: rhs_def Let_def addM_def mulM_def modM_pos mod_simps algebra_simps)

lemma count_loop_sum:
  "0 \<le> x \<Longrightarrow> count_loop c x cnt = cnt +
     (\<Sum>x'\<in>{x..<curve_P c}.
        (if legendre (rhs c x') (curve_P c) = 0 then 1
         else if legendre (rhs c x') (curve_P c) = 1 then 2 else 0))"
proof (induction c x cnt rule: count_loop.induct)
  case (1 c x cnt)
  let ?f = "\<lambda>x'. (if legendre (rhs c x') (curve_P c) = 0 then 1
         else if legendre (rhs c x') (curve_P c) = 1 then 2 else (0::int))"
  show ?case
  proof (cases "x < curve_P c")
    case False
    then show ?thesis by (subst count_loop.simps) simp
  next
    case True
    have split: "{x..<curve_P c} = insert x {x + 1..<curve_P c}" using True by auto
    have "sum ?f {x..<curve_P c} = ?f x + sum ?f {x + 1..<curve_P c}"
      by (subst split) simp
    moreover define lg where "lg = legendre (rhs c x) (curve_P c)"
    moreover define cnt' where "cnt' = (if lg = 0 then cnt + 1 else if lg = 1 then cnt + 2 else cnt)"
    moreover have "count_loop c x cnt = count_loop c (x + 1) cnt'"
      using True by (subst count_loop.simps) (simp add: Let_def cnt'_def lg_def)
    moreover have "count_loop c (x + 1) cnt' = cnt' + sum ?f {x + 1..<curve_P c}"
      unfolding cnt'_def using 1(2) by (intro 1(1) [OF True lg_def]) simp
    moreover have "cnt' = cnt + ?f x" by (simp add: cnt'_def lg_def)
    ultimately show ?thesis by simp
  qed
qed

lemma affine_points_Sigma:
  "affine_points c = (SIGMA x:{0..<curve_P c}.
     {y \<in> {0..<curve_P c}. (y * y) mod curve_P c = (x * x * x + curve_A c * x + curve_B c) mod curve_P c})"
  by (auto simp: affine_points_def)

text \<open>
  C6. For every curve over an odd prime \<open>p\<close>, \<open>countLegendre\<close> returns 1 (the point at
  infinity) plus the number of pairs \<open>(x, y)\<close> in \<open>[0, p)^2\<close> with
  \<open>y^2 = x^3 + A x + B\<close> modulo \<open>p\<close>; for \<open>A = 0\<close>, \<open>B = 1\<close>, \<open>p = 11\<close> it returns 12.
\<close>

theorem countLegendre_group_order:
  "(\<forall>c::Curve. odd_prime (curve_P c) \<longrightarrow> countLegendre c = 1 + int (card (affine_points c)))
   \<and> countLegendre (mustCurve 11 0 1) = 12"
proof (intro conjI allI impI)
  fix c :: Curve assume p: "odd_prime (curve_P c)"
  define q where "q = curve_P c"
  have pp: "0 < q" using p by (simp add: q_def odd_prime_def prime_int_def)
  let ?B = "\<lambda>x. {y \<in> {0..<q}. (y * y) mod q = (x * x * x + curve_A c * x + curve_B c) mod q}"
  have fin: "\<forall>x\<in>{0..<q}. finite (?B x)" by (intro ballI finite_range_filter)
  have "card (affine_points c) = (\<Sum>x\<in>{0..<q}. card (?B x))"
    unfolding affine_points_Sigma q_def [symmetric] using fin by (intro card_SigmaI) simp_all
  then have "int (card (affine_points c)) = (\<Sum>x\<in>{0..<q}. int (card (?B x)))" by simp
  also have "\<dots> = (\<Sum>x\<in>{0..<q}.
        (if legendre (rhs c x) q = 0 then 1 else if legendre (rhs c x) q = 1 then 2 else 0))"
  proof (rule sum.cong [OF refl])
    fix x
    have "(x * x * x + curve_A c * x + curve_B c) mod q = rhs c x mod q"
      using pp by (simp add: rhs_eq q_def)
    then have "?B x = {y \<in> {0..<q}. (y * y) mod q = rhs c x mod q}" by simp
    with square_roots_count [OF p [folded q_def], of "rhs c x"]
    show "int (card (?B x)) =
      (if legendre (rhs c x) q = 0 then 1 else if legendre (rhs c x) q = 1 then 2 else 0)"
      by simp
  qed
  finally have "int (card (affine_points c)) = (\<Sum>x\<in>{0..<q}.
        (if legendre (rhs c x) q = 0 then 1 else if legendre (rhs c x) q = 1 then 2 else 0))" .
  then show "countLegendre c = 1 + int (card (affine_points c))"
    using count_loop_sum [of 0 c 1] unfolding q_def countLegendre_def by simp
next
  show "countLegendre (mustCurve 11 0 1) = 12" by code_simp
qed

theorem countLegendre_group_order_witness:
  "odd_prime (curve_P (mustCurve 7 1 1))
   \<and> countLegendre (mustCurve 7 1 1) = 1 + int (card (affine_points (mustCurve 7 1 1)))
   \<and> countLegendre (mustCurve 7 1 1) = 5"
proof -
  have h: "odd_prime (curve_P (mustCurve 7 1 1))" by code_simp
  have v: "countLegendre (mustCurve 7 1 1) = 5" by code_simp
  from countLegendre_group_order h v show ?thesis by blast
qed

section \<open>Group law and lines\<close>

text \<open>
  C9. For an odd prime \<open>p\<close> and two points, each the identity or an affine pair with
  coordinates in \<open>[0, p)\<close>, \<open>add\<close> returns a point and never an error: under the case
  guards both denominators handed to \<open>invM\<close> are invertible.
\<close>

theorem add_never_fails:
  assumes "odd_prime (curve_P c)" "in_range (curve_P c) P" "in_range (curve_P c) Q"
  shows "\<exists>R. add c P Q = Inr R"
proof (cases P)
  case Infinity
  then show ?thesis by simp
next
  case P: (Affine px py)
  show ?thesis
  proof (cases Q)
    case Infinity
    with P show ?thesis by simp
  next
    case Q: (Affine qx qy)
    define p where "p = curve_P c"
    have pr: "prime_int p" "0 < p" using assms(1) by (auto simp: p_def odd_prime_def prime_int_def)
    have rng: "0 \<le> px" "px < p" "0 \<le> py" "py < p" "0 \<le> qx" "qx < p" "0 \<le> qy" "qy < p"
      using assms(2,3) P Q by (auto simp: p_def)
    show ?thesis
    proof (cases "px = qx")
      case True
      show ?thesis
      proof (cases "modM (py + qy) p = 0 \<or> py = 0")
        case True
        with \<open>px = qx\<close> show ?thesis by (auto simp: P Q p_def [symmetric] Let_def)
      next
        case False
        then have "0 < py" using rng by simp
        then have "0 < mulM 2 py p" "mulM 2 py p < p"
          using odd_prime_two_inv [of p py] assms(1) rng pr by (auto simp: mulM_def modM_pos p_def)
        from invM_prime [OF pr(1) this] obtain i where "invM (mulM 2 py p) p = Inr i" by blast
        with False \<open>px = qx\<close> show ?thesis by (auto simp: P Q p_def [symmetric] Let_def)
      qed
    next
      case False
      then have "0 < subM qx px p" "subM qx px p < p"
        using diff_mod_pos [of qx p px] rng pr by (auto simp: subM_def modM_pos)
      from invM_prime [OF pr(1) this] obtain i where "invM (subM qx px p) p = Inr i" by blast
      with False show ?thesis by (auto simp: P Q p_def [symmetric] Let_def)
    qed
  qed
qed

theorem add_never_fails_witness:
  "odd_prime (curve_P (mustCurve 11 0 1))
   \<and> in_range (curve_P (mustCurve 11 0 1)) (Affine 0 1)
   \<and> in_range (curve_P (mustCurve 11 0 1)) (Affine 2 3)
   \<and> (\<exists>R. add (mustCurve 11 0 1) (Affine 0 1) (Affine 2 3) = Inr R)"
proof -
  have h: "odd_prime (curve_P (mustCurve 11 0 1))"
    "in_range (curve_P (mustCurve 11 0 1)) (Affine 0 1)"
    "in_range (curve_P (mustCurve 11 0 1)) (Affine 2 3)"
    by code_simp+
  from add_never_fails [OF h] h show ?thesis by blast
qed

text \<open>
  C10. For affine points \<open>P\<close>, \<open>Q\<close> on the curve with different \<open>x\<close> and an affine sum
  \<open>R = add P Q\<close>, the line \<open>lineThrough P Q\<close> is non-vertical, \<open>neg R\<close> satisfies its
  equation, and \<open>R\<close> itself satisfies it exactly when \<open>y\<^sub>R = 0\<close>; likewise for the
  tangent at \<open>P\<close> when \<open>R = double P\<close> is affine.
\<close>

theorem third_point_negation_on_line:
  assumes "odd_prime (curve_P c)"
    and "in_range (curve_P c) (Affine px py)" "in_range (curve_P c) (Affine qx qy)"
    and "on c (Affine px py)" "on c (Affine qx qy)"
  shows "(px \<noteq> qx \<and> add c (Affine px py) (Affine qx qy) = Inr (Affine xr yr) \<longrightarrow>
           (\<exists>m k. lineThrough c (Affine px py) (Some (Affine qx qy)) = Inr (Slope m k)
              \<and> on_line (curve_P c) (Slope m k) (neg c (Affine xr yr))
              \<and> (on_line (curve_P c) (Slope m k) (Affine xr yr) \<longleftrightarrow> yr = 0)))
       \<and> (double c (Affine px py) = Inr (Affine xr yr) \<longrightarrow>
           (\<exists>m k. lineThrough c (Affine px py) None = Inr (Slope m k)
              \<and> on_line (curve_P c) (Slope m k) (neg c (Affine xr yr))
              \<and> (on_line (curve_P c) (Slope m k) (Affine xr yr) \<longleftrightarrow> yr = 0)))"
proof (intro conjI impI)
  define p where "p = curve_P c"
  have p: "odd_prime p" using assms(1) by (simp add: p_def)
  {
    assume a: "px \<noteq> qx \<and> add c (Affine px py) (Affine qx qy) = Inr (Affine xr yr)"
    then obtain i where i: "invM (subM qx px p) p = Inr i"
      by (cases "invM (subM qx px p) p") (auto simp: p_def [symmetric] Let_def)
    define m where "m = mulM (subM qy py p) i p"
    define k where "k = subM py (mulM m px p) p"
    from a i have xr: "xr = subM (subM (mulM m m p) px p) qx p"
      and yr: "yr = subM (mulM m (subM px xr p) p) py p"
      by (auto simp: p_def [symmetric] Let_def m_def)
    from a i have L: "lineThrough c (Affine px py) (Some (Affine qx qy)) = Inr (Slope m k)"
      by (auto simp: p_def [symmetric] Let_def m_def k_def)
    from line_third_point [OF p yr k_def] L
    show "\<exists>m k. lineThrough c (Affine px py) (Some (Affine qx qy)) = Inr (Slope m k)
              \<and> on_line (curve_P c) (Slope m k) (neg c (Affine xr yr))
              \<and> (on_line (curve_P c) (Slope m k) (Affine xr yr) \<longleftrightarrow> yr = 0)"
      by (auto simp: p_def [symmetric])
  }
  {
    assume a: "double c (Affine px py) = Inr (Affine xr yr)"
    then have ne: "modM (py + py) p \<noteq> 0" "py \<noteq> 0"
      by (auto simp: double_def p_def [symmetric] Let_def split: if_splits)
    with a obtain i where i: "invM (mulM 2 py p) p = Inr i"
      by (cases "invM (mulM 2 py p) p") (auto simp: double_def p_def [symmetric] Let_def)
    define m where "m = mulM (addM (mulM 3 (mulM px px p) p) (curve_A c) p) i p"
    define k where "k = subM py (mulM m px p) p"
    from a i ne have xr: "xr = subM (subM (mulM m m p) px p) px p"
      and yr: "yr = subM (mulM m (subM px xr p) p) py p"
      by (auto simp: double_def p_def [symmetric] Let_def m_def)
    from i ne have L: "lineThrough c (Affine px py) None = Inr (Slope m k)"
      by (auto simp: tangentLine_def p_def [symmetric] Let_def m_def k_def)
    from line_third_point [OF p yr k_def] L
    show "\<exists>m k. lineThrough c (Affine px py) None = Inr (Slope m k)
              \<and> on_line (curve_P c) (Slope m k) (neg c (Affine xr yr))
              \<and> (on_line (curve_P c) (Slope m k) (Affine xr yr) \<longleftrightarrow> yr = 0)"
      by (auto simp: p_def [symmetric])
  }
qed

theorem third_point_negation_on_line_witness:
  "odd_prime (curve_P (mustCurve 11 0 1))
   \<and> on (mustCurve 11 0 1) (Affine 2 3) \<and> on (mustCurve 11 0 1) (Affine 0 1)
   \<and> add (mustCurve 11 0 1) (Affine 2 3) (Affine 0 1) = Inr (Affine 10 0)
   \<and> double (mustCurve 11 0 1) (Affine 2 3) = Inr (Affine 0 1)
   \<and> (\<exists>m k. lineThrough (mustCurve 11 0 1) (Affine 2 3) (Some (Affine 0 1)) = Inr (Slope m k)
        \<and> on_line 11 (Slope m k) (neg (mustCurve 11 0 1) (Affine 10 0)))
   \<and> (\<exists>m k. lineThrough (mustCurve 11 0 1) (Affine 2 3) None = Inr (Slope m k)
        \<and> on_line 11 (Slope m k) (neg (mustCurve 11 0 1) (Affine 0 1))
        \<and> \<not> on_line 11 (Slope m k) (Affine 0 1))"
proof -
  have h: "odd_prime (curve_P (mustCurve 11 0 1))"
    "in_range (curve_P (mustCurve 11 0 1)) (Affine 2 3)"
    "in_range (curve_P (mustCurve 11 0 1)) (Affine 0 1)"
    "on (mustCurve 11 0 1) (Affine 2 3)" "on (mustCurve 11 0 1) (Affine 0 1)"
    by code_simp+
  have e: "add (mustCurve 11 0 1) (Affine 2 3) (Affine 0 1) = Inr (Affine 10 0)"
    "double (mustCurve 11 0 1) (Affine 2 3) = Inr (Affine 0 1)"
    "curve_P (mustCurve 11 0 1) = 11"
    by code_simp+
  from third_point_negation_on_line [OF h, of 10 0] third_point_negation_on_line [OF h, of 0 1]
  show ?thesis using h e by auto
qed

text \<open>
  C8. For two distinct affine points on the curve with coordinates in \<open>[0, p)\<close>,
  \<open>lineThrough P Q\<close> and \<open>lineThrough Q P\<close> both return a line, and the two lines have
  the same canonical key.
\<close>

theorem lineThrough_key_symmetric:
  assumes "prime_int (curve_P c)"
    and "in_range (curve_P c) (Affine px py)" "in_range (curve_P c) (Affine qx qy)"
    and "on c (Affine px py)" "on c (Affine qx qy)"
    and "Affine px py \<noteq> Affine qx qy"
  shows "\<exists>L1 L2. lineThrough c (Affine px py) (Some (Affine qx qy)) = Inr L1
           \<and> lineThrough c (Affine qx qy) (Some (Affine px py)) = Inr L2
           \<and> key L1 = key L2"
proof (cases "px = qx")
  case True
  with assms(6) have ne: "py \<noteq> qy" by simp
  from same_x_opposite [OF assms(1) assms(2) _ assms(4) _ ne] assms(3,5) True
  have "modM (py + qy) (curve_P c) = 0" by simp
  then have "modM (qy + py) (curve_P c) = 0" by (simp add: add.commute)
  with \<open>modM (py + qy) (curve_P c) = 0\<close> True show ?thesis by simp
next
  case False
  define p where "p = curve_P c"
  have pr: "prime_int p" "0 < p" using assms(1) by (auto simp: p_def prime_int_def)
  have rng: "0 \<le> px" "px < p" "0 \<le> qx" "qx < p"
    using assms(2,3) by (auto simp: p_def)
  have d: "0 < subM qx px p" "subM qx px p < p"
    using diff_mod_pos [of qx p px] rng pr False by (auto simp: subM_def modM_pos)
  have d': "0 < subM px qx p" "subM px qx p < p"
    using diff_mod_pos [of px p qx] rng pr False by (auto simp: subM_def modM_pos)
  from invM_prime [OF pr(1) d] obtain i where
    i: "invM (subM qx px p) p = Inr i" "(subM qx px p * i) mod p = 1" by blast
  from invM_prime [OF pr(1) d'] obtain i' where
    i': "invM (subM px qx p) p = Inr i'" "(subM px qx p * i') mod p = 1" by blast
  define m where "m = mulM (subM qy py p) i p"
  define m' where "m' = mulM (subM py qy p) i' p"
  have sub: "subM qx px p = (qx - px) mod p" "subM px qx p = (px - qx) mod p"
    using pr by (simp_all add: subM_def modM_pos)
  from secant_symmetric [OF pr(1) d sub(1) i(2) sub(2) i'(2) m_def m'_def]
  have eq: "m = m'" "subM py (mulM m px p) p = subM qy (mulM m qx p) p" .
  have L1: "lineThrough c (Affine px py) (Some (Affine qx qy))
      = Inr (Slope m (subM py (mulM m px p) p))"
    using False i by (simp add: p_def [symmetric] Let_def m_def)
  have L2: "lineThrough c (Affine qx qy) (Some (Affine px py))
      = Inr (Slope m' (subM qy (mulM m' qx p) p))"
    using False i' by (auto simp: p_def [symmetric] Let_def m'_def)
  show ?thesis unfolding L1 L2 using eq by simp
qed

theorem lineThrough_key_symmetric_witness:
  "prime_int (curve_P (mustCurve 11 0 1))
   \<and> on (mustCurve 11 0 1) (Affine 2 3) \<and> on (mustCurve 11 0 1) (Affine 0 1)
   \<and> (\<exists>L1 L2. lineThrough (mustCurve 11 0 1) (Affine 2 3) (Some (Affine 0 1)) = Inr L1
           \<and> lineThrough (mustCurve 11 0 1) (Affine 0 1) (Some (Affine 2 3)) = Inr L2
           \<and> key L1 = key L2)"
proof -
  have h: "prime_int (curve_P (mustCurve 11 0 1))"
    "in_range (curve_P (mustCurve 11 0 1)) (Affine 2 3)"
    "in_range (curve_P (mustCurve 11 0 1)) (Affine 0 1)"
    "on (mustCurve 11 0 1) (Affine 2 3)" "on (mustCurve 11 0 1) (Affine 0 1)"
    "Affine 2 3 \<noteq> Affine 0 1"
    by code_simp+
  from lineThrough_key_symmetric [OF h] h show ?thesis by blast
qed

section \<open>The walk engine\<close>

text \<open>
  C1 fails on the code. On \<open>y^2 = x^3 + 1\<close> over \<open>p = 11\<close> in grid mode, after
  \<open>addFound\<close> of \<open>(2, 3)\<close> and \<open>processLineFrom\<close> of its tangent \<open>y = 2x + 10\<close>, the
  curve point \<open>(0, 10)\<close> is marked EXCLUDED: the tangent meets the curve again in
  \<open>(0, 10) = neg R\<close>, while the kept intersections are \<open>P\<close> and \<open>R = (0, 1)\<close>.
\<close>

theorem excluded_curve_point:
  "on (mustCurve 11 0 1) (Affine 0 10)
   \<and> map_sum id (\<lambda>e. isExcluded (eng_G e) 0 10)
        (processLineFrom (seeded True) (Affine 2 3) None) = Inr True"
  by code_simp

lemma processLineFrom_done:
  assumes "lineThrough (eng_C e) P Q = Inr L" "key L \<in> linesDone e"
  shows "processLineFrom e P Q = Inr e"
  using assms by (simp add: processLineFrom_def)

text \<open>
  C2 (as amended). When \<open>processLineFrom\<close> is called on a line whose key is already in
  \<open>linesDone\<close>, the line is skipped (the engine is returned unchanged, without error),
  but \<open>walkAndExclude\<close> still marks the tangent or the pair done and adds one to
  \<open>processed\<close>. The counter counts every tangent and pair attempted: whenever
  \<open>processLineFrom\<close> returns without error, skipped or not, the tangent block and the
  secant loop go on with \<open>processed + 1\<close>.
\<close>

theorem skipped_line_is_counted:
  "(lineThrough (eng_C e) P Q = Inr L \<and> key L \<in> linesDone e \<longrightarrow>
      processLineFrom e P Q = Inr e
      \<and> (Q = None \<and> pointKey P \<notin> tangentDone e \<longrightarrow>
           tangent_step e P n
             = Inr (e\<lparr>tangentDone := insert (pointKey P) (tangentDone e)\<rparr>, n + 1))
      \<and> (Q = Some (order e ! j) \<and> j < i \<and> order e ! j \<noteq> Infinity
            \<and> pairKey P (order e ! j) \<notin> secantDone e \<longrightarrow>
           secant_loop maxLines e P i j n
             = (let e2 = e\<lparr>secantDone := insert (pairKey P (order e ! j)) (secantDone e)\<rparr>
                in if maxLines > 0 \<and> n + 1 \<ge> maxLines then Inr (e2, n + 1)
                   else secant_loop maxLines e2 P i (Suc j) (n + 1))))
   \<and> (pointKey P \<notin> tangentDone e \<and> processLineFrom e P None = Inr e1 \<longrightarrow>
        tangent_step e P n
          = Inr (e1\<lparr>tangentDone := insert (pointKey P) (tangentDone e1)\<rparr>, n + 1))
   \<and> (j < i \<and> order e ! j \<noteq> Infinity \<and> pairKey P (order e ! j) \<notin> secantDone e
        \<and> processLineFrom e P (Some (order e ! j)) = Inr e1 \<longrightarrow>
        secant_loop maxLines e P i j n
          = (let e2 = e1\<lparr>secantDone := insert (pairKey P (order e ! j)) (secantDone e1)\<rparr>
             in if maxLines > 0 \<and> n + 1 \<ge> maxLines then Inr (e2, n + 1)
                else secant_loop maxLines e2 P i (Suc j) (n + 1)))"
proof -
  have tangent: "tangent_step e P n
      = Inr (e1\<lparr>tangentDone := insert (pointKey P) (tangentDone e1)\<rparr>, n + 1)"
    if "pointKey P \<notin> tangentDone e" "processLineFrom e P None = Inr e1" for e1
    using that by (simp add: tangent_step_def)
  have secant: "secant_loop maxLines e P i j n
      = (let e2 = e1\<lparr>secantDone := insert (pairKey P (order e ! j)) (secantDone e1)\<rparr>
         in if maxLines > 0 \<and> n + 1 \<ge> maxLines then Inr (e2, n + 1)
            else secant_loop maxLines e2 P i (Suc j) (n + 1))"
    if "j < i" "order e ! j \<noteq> Infinity" "pairKey P (order e ! j) \<notin> secantDone e"
      "processLineFrom e P (Some (order e ! j)) = Inr e1" for e1
    using that by (subst secant_loop.simps) (simp add: Let_def)
  have skipped: "processLineFrom e P Q = Inr e"
    if "lineThrough (eng_C e) P Q = Inr L" "key L \<in> linesDone e"
    using that by (rule processLineFrom_done)
  show ?thesis
  proof (intro conjI impI)
    assume a: "lineThrough (eng_C e) P Q = Inr L \<and> key L \<in> linesDone e"
    then show s: "processLineFrom e P Q = Inr e" using skipped by simp
    {
      assume "Q = None \<and> pointKey P \<notin> tangentDone e"
      with s show "tangent_step e P n
             = Inr (e\<lparr>tangentDone := insert (pointKey P) (tangentDone e)\<rparr>, n + 1)"
        using tangent [of e] by simp
    }
    {
      assume "Q = Some (order e ! j) \<and> j < i \<and> order e ! j \<noteq> Infinity
            \<and> pairKey P (order e ! j) \<notin> secantDone e"
      with s show "secant_loop maxLines e P i j n
             = (let e2 = e\<lparr>secantDone := insert (pairKey P (order e ! j)) (secantDone e)\<rparr>
                in if maxLines > 0 \<and> n + 1 \<ge> maxLines then Inr (e2, n + 1)
                   else secant_loop maxLines e2 P i (Suc j) (n + 1))"
        using secant [of e] by simp
    }
  next
    assume "pointKey P \<notin> tangentDone e \<and> processLineFrom e P None = Inr e1"
    then show "tangent_step e P n
          = Inr (e1\<lparr>tangentDone := insert (pointKey P) (tangentDone e1)\<rparr>, n + 1)"
      using tangent by simp
  next
    assume "j < i \<and> order e ! j \<noteq> Infinity \<and> pairKey P (order e ! j) \<notin> secantDone e
        \<and> processLineFrom e P (Some (order e ! j)) = Inr e1"
    then show "secant_loop maxLines e P i j n
          = (let e2 = e1\<lparr>secantDone := insert (pairKey P (order e ! j)) (secantDone e1)\<rparr>
             in if maxLines > 0 \<and> n + 1 \<ge> maxLines then Inr (e2, n + 1)
                else secant_loop maxLines e2 P i (Suc j) (n + 1))"
      using secant by simp
  qed
qed

theorem skipped_line_is_counted_witness:
  "map_sum id (\<lambda>e. lineThrough (eng_C e) (Affine 2 3) None = Inr (Slope 2 10)
        \<and> key (Slope 2 10) \<in> linesDone e \<and> pointKey (Affine 2 3) \<notin> tangentDone e
        \<and> map_sum id snd (tangent_step e (Affine 2 3) 1) = Inr 2)
     (processLineFrom (seeded False) (Affine 2 3) None) = Inr True
   \<and> pointKey (Affine 2 3) \<notin> tangentDone (seeded False)
   \<and> map_sum id snd (tangent_step (seeded False) (Affine 2 3) 0) = Inr 1"
proof (cases "processLineFrom (seeded False) (Affine 2 3) None")
  case (Inl err)
  moreover have "map_sum id (\<lambda>e. True) (processLineFrom (seeded False) (Affine 2 3) None) = Inr True"
    by code_simp
  ultimately show ?thesis by simp
next
  case (Inr e)
  have "map_sum id (\<lambda>e. lineThrough (eng_C e) (Affine 2 3) None = Inr (Slope 2 10)
        \<and> key (Slope 2 10) \<in> linesDone e \<and> pointKey (Affine 2 3) \<notin> tangentDone e)
     (processLineFrom (seeded False) (Affine 2 3) None) = Inr True"
    by code_simp
  with Inr have h: "lineThrough (eng_C e) (Affine 2 3) None = Inr (Slope 2 10)"
    "key (Slope 2 10) \<in> linesDone e" "pointKey (Affine 2 3) \<notin> tangentDone e"
    by simp_all
  from skipped_line_is_counted [of e "Affine 2 3" None "Slope 2 10" 1] h
  have "tangent_step e (Affine 2 3) 1
      = Inr (e\<lparr>tangentDone := insert (pointKey (Affine 2 3)) (tangentDone e)\<rparr>, 2)"
    by simp
  moreover have f: "pointKey (Affine 2 3) \<notin> tangentDone (seeded False)" by code_simp
  moreover from skipped_line_is_counted [of "seeded False" "Affine 2 3" None "Slope 2 10" 0 _ _ _ e] f Inr
  have "tangent_step (seeded False) (Affine 2 3) 0
      = Inr (e\<lparr>tangentDone := insert (pointKey (Affine 2 3)) (tangentDone e)\<rparr>, 1)"
    by simp
  ultimately show ?thesis using Inr h by simp
qed

text \<open>
  C2 as stated fails. Walking from the seed \<open>(2, 3)\<close> with the cap 5: the tangent at
  \<open>(2, 3)\<close> and the secant through \<open>(0, 10)\<close> and \<open>(2, 3)\<close> are the same line, the secant
  is skipped, and the run ends with \<open>processed = 5\<close> after only four lines.
\<close>

theorem skipped_line_counted_counterexample:
  "lineThrough (mustCurve 11 0 1) (Affine 2 3) None = Inr (Slope 2 10)
   \<and> lineThrough (mustCurve 11 0 1) (Affine 0 10) (Some (Affine 2 3)) = Inr (Slope 2 10)
   \<and> map_option (map_sum id (map_prod linesDone id)) (walk_loop 5 (seeded False) 0 0)
       = Some (Inr ({''m:2|c:10'', ''m:0|c:1'', ''m:1|c:1'', ''m:0|c:10''}, 5))"
  by code_simp

subsection \<open>Seed search\<close>

lemma digit_chars_distinct: "distinct ''0123456789''"
  by simp

lemma digit_char_inj:
  assumes "a < 10" "b < 10" "''0123456789'' ! a = ''0123456789'' ! b"
  shows "a = b"
  using assms digit_chars_distinct by (simp add: nth_eq_iff_index_eq)

lemma digits_nonempty: "digits n \<noteq> []"
  by (subst digits.simps) simp

lemma digits_no_minus: "CHR ''-'' \<notin> set (digits n)"
proof (induction n rule: digits.induct)
  case (1 n)
  have "''0123456789'' ! (n mod 10) \<in> set ''0123456789''" by (intro nth_mem) simp
  then have m: "''0123456789'' ! (n mod 10) \<noteq> CHR ''-''" by auto
  show ?case
  proof (cases "n < 10")
    case True
    with m show ?thesis by (subst digits.simps) auto
  next
    case False
    with 1 m show ?thesis by (subst digits.simps) auto
  qed
qed

lemma digits_inj: "digits m = digits n \<Longrightarrow> m = n"
proof (induction m arbitrary: n rule: digits.induct)
  case (1 m)
  show ?case
  proof (cases "m < 10")
    case m: True
    show ?thesis
    proof (cases "n < 10")
      case True
      with m 1(2) show ?thesis
        by (subst (asm) digits.simps, subst (asm) (2) digits.simps) (auto dest: digit_char_inj)
    next
      case False
      with m 1(2) digits_nonempty [of "n div 10"] show ?thesis
        by (subst (asm) digits.simps, subst (asm) (2) digits.simps) auto
    qed
  next
    case m: False
    show ?thesis
    proof (cases "n < 10")
      case True
      with m 1(2) digits_nonempty [of "m div 10"] show ?thesis
        by (subst (asm) digits.simps, subst (asm) (2) digits.simps) auto
    next
      case False
      with m 1(2) have eq: "digits (m div 10) = digits (n div 10)"
        "''0123456789'' ! (m mod 10) = ''0123456789'' ! (n mod 10)"
        by (subst (asm) digits.simps, subst (asm) (2) digits.simps, simp)+
      from 1(1) [OF m eq(1)] have "m div 10 = n div 10" .
      moreover from eq(2) have "m mod 10 = n mod 10" by (intro digit_char_inj) auto
      ultimately show ?thesis by (metis div_mult_mod_eq)
    qed
  qed
qed

lemma String_inj: "String a = String b \<Longrightarrow> a = b"
proof -
  assume eq: "String a = String b"
  have hd: "\<And>n. hd (digits n) \<noteq> CHR ''-''"
    using digits_no_minus digits_nonempty by (metis list.set_sel(1))
  have ne: "\<And>m n. CHR ''-'' # digits m \<noteq> digits n"
    using hd by (metis list.sel(1))
  show ?thesis
  proof (cases "a < 0")
    case a: True
    show ?thesis
    proof (cases "b < 0")
      case True
      with a eq have "nat (- a) = nat (- b)" by (auto simp: String_def dest: digits_inj)
      with a True show ?thesis by simp
    next
      case False
      with a eq ne show ?thesis by (auto simp: String_def)
    qed
  next
    case a: False
    show ?thesis
    proof (cases "b < 0")
      case True
      with a eq ne [of "nat (- b)" "nat a"] show ?thesis by (auto simp: String_def)
    next
      case False
      with a eq have "nat a = nat b" by (auto simp: String_def dest: digits_inj)
      with a False show ?thesis by simp
    qed
  qed
qed

lemma roots_found_deadX [simp]: "roots_found (e\<lparr>deadX := d\<rparr>) x = roots_found e x"
  by (simp add: roots_found_def Let_def split: option.splits sum.splits)

lemma findNextSeed_loop_marks:
  assumes "findNextSeed_loop draw e tries = Some (e', r)"
  shows "eng_C e' = eng_C e \<and> found e' = found e
    \<and> (\<forall>k\<in>deadX e'. k \<in> deadX e \<or> (\<exists>n. tries \<le> n \<and> n < 200000 \<and> k = String (draw n)
           \<and> roots_found e (draw n)))"
  using assms
proof (induction draw e tries rule: findNextSeed_loop.induct)
  case (1 draw e tries)
  show ?case
  proof (cases "tries < 200000")
    case False
    with 1(6) have "e' = e" by (subst (asm) findNextSeed_loop.simps) simp
    then show ?thesis by simp
  next
    case t: True
    define p where "p = curve_P (eng_C e)"
    define x where "x = draw tries"
    define kx where "kx = String x"
    define t where "t = rhs (eng_C e) x"
    define lg where "lg = legendre t p"
    note defs = p_def x_def kx_def t_def lg_def
    note IH = 1(1-5) [OF \<open>tries < 200000\<close> p_def x_def kx_def]
    have later: "\<And>n. tries + 1 \<le> n \<Longrightarrow> tries \<le> n" by simp
    have same: "findNextSeed_loop draw e (tries + 1) = Some (e', r) \<Longrightarrow>
        eng_C e' = eng_C e \<and> found e' = found e
        \<and> (\<forall>k\<in>deadX e'. k \<in> deadX e \<or> (\<exists>n. tries + 1 \<le> n \<and> n < 200000 \<and> k = String (draw n)
           \<and> roots_found e (draw n))) \<Longrightarrow> ?thesis"
      using later by blast
    have marked: "findNextSeed_loop draw (e\<lparr>deadX := insert kx (deadX e)\<rparr>) (tries + 1) = Some (e', r) \<Longrightarrow>
        eng_C e' = eng_C (e\<lparr>deadX := insert kx (deadX e)\<rparr>)
        \<and> found e' = found (e\<lparr>deadX := insert kx (deadX e)\<rparr>)
        \<and> (\<forall>k\<in>deadX e'. k \<in> deadX (e\<lparr>deadX := insert kx (deadX e)\<rparr>)
              \<or> (\<exists>n. tries + 1 \<le> n \<and> n < 200000 \<and> k = String (draw n)
                   \<and> roots_found (e\<lparr>deadX := insert kx (deadX e)\<rparr>) (draw n))) \<Longrightarrow>
        roots_found e x \<Longrightarrow> ?thesis"
    proof -
      assume a: "eng_C e' = eng_C (e\<lparr>deadX := insert kx (deadX e)\<rparr>)
        \<and> found e' = found (e\<lparr>deadX := insert kx (deadX e)\<rparr>)
        \<and> (\<forall>k\<in>deadX e'. k \<in> deadX (e\<lparr>deadX := insert kx (deadX e)\<rparr>)
              \<or> (\<exists>n. tries + 1 \<le> n \<and> n < 200000 \<and> k = String (draw n)
                   \<and> roots_found (e\<lparr>deadX := insert kx (deadX e)\<rparr>) (draw n)))"
        and rf: "roots_found e x"
      have "k \<in> deadX e \<or> (\<exists>n. tries \<le> n \<and> n < 200000 \<and> k = String (draw n)
           \<and> roots_found e (draw n))" if k: "k \<in> deadX e'" for k
      proof -
        from a k have "k = kx \<or> k \<in> deadX e \<or> (\<exists>n. tries + 1 \<le> n \<and> n < 200000 \<and> k = String (draw n)
                   \<and> roots_found e (draw n))" by auto
        then show ?thesis
        proof (elim disjE)
          assume "k = kx"
          with rf t show ?thesis by (auto simp: kx_def x_def)
        next
          assume "k \<in> deadX e"
          then show ?thesis by simp
        next
          assume "\<exists>n. tries + 1 \<le> n \<and> n < 200000 \<and> k = String (draw n) \<and> roots_found e (draw n)"
          with later show ?thesis by blast
        qed
      qed
      with a show ?thesis by simp
    qed
    show ?thesis
    proof (cases "kx \<in> deadX e")
      case True
      with 1(6) t have run: "findNextSeed_loop draw e (tries + 1) = Some (e', r)"
        by (subst (asm) findNextSeed_loop.simps) (simp add: Let_def defs)
      from same [OF run IH(1) [OF True run]] show ?thesis .
    next
      case dead: False
      show ?thesis
      proof (cases "lg = - 1")
        case True
        with 1(6) t dead have run: "findNextSeed_loop draw e (tries + 1) = Some (e', r)"
          by (subst (asm) findNextSeed_loop.simps) (simp add: Let_def defs)
        from same [OF run IH(2) [OF dead t_def lg_def True run]] show ?thesis .
      next
        case lg: False
        show ?thesis
        proof (cases "lg = 0")
          case True
          show ?thesis
          proof (cases "found e (pointKey (Affine x 0)) = None")
            case True
            with 1(6) t dead lg \<open>lg = 0\<close> have "e' = e"
              by (subst (asm) findNextSeed_loop.simps) (simp add: Let_def defs)
            then show ?thesis by simp
          next
            case False
            with 1(6) t dead lg \<open>lg = 0\<close>
            have run: "findNextSeed_loop draw (e\<lparr>deadX := insert kx (deadX e)\<rparr>) (tries + 1) = Some (e', r)"
              by (subst (asm) findNextSeed_loop.simps) (auto simp: Let_def defs)
            have rf: "roots_found e x"
              using False \<open>lg = 0\<close> by (simp add: roots_found_def Let_def defs)
            from marked [OF run IH(3) [OF dead t_def lg_def lg True False run] rf]
            show ?thesis .
          qed
        next
          case nz: False
          show ?thesis
          proof (cases "sqrtModP t p")
            case None
            with 1(6) t dead lg nz show ?thesis
              by (subst (asm) findNextSeed_loop.simps) (simp add: Let_def defs)
          next
            case (Some res)
            show ?thesis
            proof (cases res)
              case (Inl err)
              with Some 1(6) t dead lg nz
              have run: "findNextSeed_loop draw e (tries + 1) = Some (e', r)"
                by (subst (asm) findNextSeed_loop.simps) (simp add: Let_def defs)
              from same [OF run IH(4) [OF dead t_def lg_def lg nz Some Inl run]]
              show ?thesis .
            next
              case (Inr y)
              show ?thesis
              proof (cases "found e (pointKey (Affine x y)) = None
                  \<or> found e (pointKey (Affine x (negM y p))) = None")
                case True
                with Some Inr 1(6) t dead lg nz have "e' = e"
                  by (subst (asm) findNextSeed_loop.simps) (auto simp: Let_def defs split: if_splits)
                then show ?thesis by simp
              next
                case False
                with Some Inr 1(6) t dead lg nz
                have run: "findNextSeed_loop draw (e\<lparr>deadX := insert kx (deadX e)\<rparr>) (tries + 1) = Some (e', r)"
                  by (subst (asm) findNextSeed_loop.simps) (auto simp: Let_def defs)
                have rf: "roots_found e x"
                  using False Some Inr lg nz by (simp add: roots_found_def Let_def defs)
                from False have f: "found e (pointKey (Affine x y)) \<noteq> None"
                  "found e (pointKey (Affine x (negM y p))) \<noteq> None" by simp_all
                from marked [OF run IH(5) [OF dead t_def lg_def lg nz Some Inr f run] rf]
                show ?thesis .
              qed
            qed
          qed
        qed
      qed
    qed
  qed
qed


lemma sqrtModP_root:
  assumes p: "odd_prime p" and lg: "legendre t p = 1" and s: "sqrtModP t p = Some (Inr y)"
  shows "0 \<le> y \<and> y < p \<and> (y * y) mod p = t mod p"
proof (cases "p mod 4 = 3")
  case True
  have "0 < p" using p by (simp add: odd_prime_def prime_int_def)
  then have "0 \<le> (t mod p) ^ nat ((p + 1) div 4) mod p" "(t mod p) ^ nat ((p + 1) div 4) mod p < p"
    by simp_all
  with sqrt_fast_path [OF p lg True] s show ?thesis by simp
next
  case False
  with sqrt_general_path [OF p lg False] s show ?thesis by auto
qed

lemma opposite_roots:
  assumes p: "odd_prime p" and y: "0 \<le> y" "y < p"
    and eq: "(y * y) mod p = (y0 * y0) mod p"
  shows "y = y0 mod p \<or> y = negM y0 p"
proof -
  have pr: "prime_int p" "0 < p" using p by (auto simp: odd_prime_def prime_int_def)
  from eq have "p dvd (y * y - y0 * y0)" by (simp only: mod_eq_dvd_iff)
  moreover have "y * y - y0 * y0 = (y - y0) * (y + y0)" by (simp add: algebra_simps)
  ultimately have "p dvd (y - y0) \<or> p dvd (y + y0)" using prime_int_dvd_mult [OF pr(1)] by simp
  then show ?thesis
  proof
    assume "p dvd (y - y0)"
    then have "y mod p = y0 mod p" by (simp only: mod_eq_dvd_iff)
    with y show ?thesis by simp
  next
    assume "p dvd (y + y0)"
    then have "p dvd (y - (- y0))" by simp
    then have "y mod p = (- y0) mod p" by (simp only: mod_eq_dvd_iff)
    with y pr show ?thesis by (simp add: negM_def subM_def modM_pos)
  qed
qed

lemma roots_found_points:
  assumes p: "odd_prime (curve_P (eng_C e))" and rf: "roots_found e x"
    and y: "0 \<le> y" "y < curve_P (eng_C e)" and on: "on (eng_C e) (Affine x y)"
  shows "found e (pointKey (Affine x y)) \<noteq> None"
proof -
  define c where "c = eng_C e"
  define q where "q = curve_P c"
  define t where "t = rhs c x"
  have pr: "prime_int q" "0 < q" using p by (auto simp: odd_prime_def prime_int_def q_def c_def)
  have oq: "odd_prime q" using p by (simp add: q_def c_def)
  from on have yy: "(y * y) mod q = t mod q"
    using pr(2) on_affine [of c x y] rhs_eq [of c x] by (simp add: c_def q_def t_def)
  show ?thesis
  proof (cases "legendre t q = 0")
    case True
    then have "q dvd t" by (auto simp: legendre_cases [OF oq] split: if_splits)
    from square_roots_of_zero [OF oq this] y yy have "y = 0" by (auto simp: q_def c_def)
    with rf True show ?thesis by (simp add: roots_found_def Let_def c_def q_def t_def)
  next
    case False
    with rf obtain y0 where y0: "sqrtModP t q = Some (Inr y0)"
      "found e (pointKey (Affine x y0)) \<noteq> None"
      "found e (pointKey (Affine x (negM y0 q))) \<noteq> None" and lg: "legendre t q \<noteq> - 1"
      by (auto simp: roots_found_def Let_def c_def q_def t_def split: option.splits sum.splits)
    from False lg have "legendre t q = 1" by (simp add: legendre_cases [OF oq] split: if_splits)
    from sqrtModP_root [OF oq this y0(1)] have r0: "0 \<le> y0" "y0 < q" "(y0 * y0) mod q = t mod q"
      by simp_all
    from opposite_roots [OF oq y(1) y(2) [folded c_def q_def], of y0] yy r0
    have "y = y0 \<or> y = negM y0 q" by simp
    with y0 show ?thesis by auto
  qed
qed

text \<open>
  C3 (as amended). In \<open>findNextSeed\<close>, a drawn candidate \<open>x\<close> with Legendre symbol \<open>-1\<close>
  only costs one try: the search goes on with the engine unchanged, and such an \<open>x\<close> is
  not in \<open>deadX\<close> when the search returns. An \<open>x\<close> is marked dead only when every point
  above it is already in \<open>found\<close> (which the search leaves as it is): the point
  \<open>(x, 0)\<close>, or both square roots; over an odd prime these are all the points
  \<open>(x, y)\<close> of the curve with \<open>y\<close> in \<open>[0, p)\<close>.
\<close>

theorem nonresidue_not_marked_dead:
  "(tries < 200000 \<and> legendre (rhs (eng_C e) (draw tries)) (curve_P (eng_C e)) = - 1
      \<and> String (draw tries) \<notin> deadX e \<longrightarrow>
        findNextSeed_loop draw e tries = findNextSeed_loop draw e (tries + 1))
   \<and> (\<forall>e' r x. findNextSeed_loop draw e tries = Some (e', r)
        \<and> legendre (rhs (eng_C e) x) (curve_P (eng_C e)) = - 1 \<and> String x \<notin> deadX e \<longrightarrow>
          String x \<notin> deadX e')
   \<and> (\<forall>e' r x. findNextSeed_loop draw e tries = Some (e', r)
        \<and> String x \<in> deadX e' \<and> String x \<notin> deadX e \<longrightarrow>
          found e' = found e \<and> roots_found e x)
   \<and> (odd_prime (curve_P (eng_C e)) \<longrightarrow>
        (\<forall>e' r x y. findNextSeed_loop draw e tries = Some (e', r)
          \<and> String x \<in> deadX e' \<and> String x \<notin> deadX e
          \<and> 0 \<le> y \<and> y < curve_P (eng_C e) \<and> on (eng_C e) (Affine x y) \<longrightarrow>
            found e' (pointKey (Affine x y)) \<noteq> None))"
proof -
  have marks: "found e' = found e \<and> roots_found e x"
    if "findNextSeed_loop draw e tries = Some (e', r)" "String x \<in> deadX e'" "String x \<notin> deadX e"
    for e' r x
  proof -
    from findNextSeed_loop_marks [OF that(1)] that(2,3)
    obtain n where "found e' = found e" "String x = String (draw n)" "roots_found e (draw n)"
      by blast
    with String_inj [of x "draw n"] show ?thesis by simp
  qed
  have step: "findNextSeed_loop draw e tries = findNextSeed_loop draw e (tries + 1)"
    if "tries < 200000" "legendre (rhs (eng_C e) (draw tries)) (curve_P (eng_C e)) = - 1"
      "String (draw tries) \<notin> deadX e"
    using that by (subst findNextSeed_loop.simps) (simp add: Let_def)
  have never: "String x \<notin> deadX e'"
    if "findNextSeed_loop draw e tries = Some (e', r)"
      "legendre (rhs (eng_C e) x) (curve_P (eng_C e)) = - 1" "String x \<notin> deadX e"
    for e' r x
  proof
    assume "String x \<in> deadX e'"
    from marks [OF that(1) this that(3)] have "roots_found e x" by simp
    with that(2) show False by (simp add: roots_found_def Let_def)
  qed
  have points: "found e' (pointKey (Affine x y)) \<noteq> None"
    if "odd_prime (curve_P (eng_C e))" "findNextSeed_loop draw e tries = Some (e', r)"
      "String x \<in> deadX e'" "String x \<notin> deadX e"
      "0 \<le> y" "y < curve_P (eng_C e)" "on (eng_C e) (Affine x y)"
    for e' r x y
  proof -
    from marks [OF that(2,3,4)] have m: "found e' = found e" "roots_found e x" by simp_all
    from roots_found_points [OF that(1) m(2) that(5,6,7)] m(1) show ?thesis by simp
  qed
  from step never marks points show ?thesis by blast
qed

theorem nonresidue_not_marked_dead_witness:
  "legendre (rhs (eng_C (newEngine (mustCurve 11 0 1) False)) (draws12 0))
      (curve_P (eng_C (newEngine (mustCurve 11 0 1) False))) = - 1
   \<and> findNextSeed_loop draws12 (newEngine (mustCurve 11 0 1) False) 0
       = findNextSeed_loop draws12 (newEngine (mustCurve 11 0 1) False) 1
   \<and> map_option (map_prod deadX id) (findNextSeed_loop draws20 seeded_both 0)
       = Some ({''2''}, Some (Affine 0 1))
   \<and> roots_found seeded_both 2
   \<and> found seeded_both (pointKey (Affine 2 3)) \<noteq> None
   \<and> found seeded_both (pointKey (Affine 2 8)) \<noteq> None"
proof -
  have h: "(0::int) < 200000"
    "legendre (rhs (eng_C (newEngine (mustCurve 11 0 1) False)) (draws12 0))
      (curve_P (eng_C (newEngine (mustCurve 11 0 1) False))) = - 1"
    "String (draws12 0) \<notin> deadX (newEngine (mustCurve 11 0 1) False)"
    by code_simp+
  from nonresidue_not_marked_dead [of 0 "newEngine (mustCurve 11 0 1) False" draws12] h
  have step: "findNextSeed_loop draws12 (newEngine (mustCurve 11 0 1) False) 0
       = findNextSeed_loop draws12 (newEngine (mustCurve 11 0 1) False) 1" by simp
  have run: "map_option (map_prod deadX id) (findNextSeed_loop draws20 seeded_both 0)
       = Some ({''2''}, Some (Affine 0 1))" by code_simp
  then obtain e' r where e': "findNextSeed_loop draws20 seeded_both 0 = Some (e', r)"
    "deadX e' = {''2''}" by (cases "findNextSeed_loop draws20 seeded_both 0") auto
  have g: "String 2 = ''2''" "String 2 \<notin> deadX seeded_both"
    "odd_prime (curve_P (eng_C seeded_both))"
    "(0::int) \<le> 3" "3 < curve_P (eng_C seeded_both)" "on (eng_C seeded_both) (Affine 2 3)"
    "(0::int) \<le> 8" "8 < curve_P (eng_C seeded_both)" "on (eng_C seeded_both) (Affine 2 8)"
    by code_simp+
  from e' g(1) have d: "String 2 \<in> deadX e'" by simp
  note inst = nonresidue_not_marked_dead [of 0 seeded_both draws20]
  from inst e'(1) d g(2) have m: "found e' = found seeded_both" "roots_found seeded_both 2"
    by blast+
  from inst g(3) e'(1) d g(2) g(4,5,6) have "found e' (pointKey (Affine 2 3)) \<noteq> None" by blast
  moreover from inst g(3) e'(1) d g(2) g(7,8,9) have "found e' (pointKey (Affine 2 8)) \<noteq> None"
    by blast
  ultimately show ?thesis using h(2) step run m by simp
qed

text \<open>
  C3 as stated fails: with the draws \<open>1, 2\<close> on \<open>y^2 = x^3 + 1\<close> over \<open>p = 11\<close>, the
  candidate \<open>x = 1\<close> has Legendre symbol \<open>-1\<close>, and the search returns the seed
  \<open>(2, 3)\<close> with \<open>deadX\<close> still empty.
\<close>

theorem nonresidue_dead_counterexample:
  "legendre (rhs (mustCurve 11 0 1) (draws12 0)) 11 = - 1
   \<and> map_option (map_prod deadX id) (findNextSeed draws12 (newEngine (mustCurve 11 0 1) False))
       = Some ({}, Some (Affine 2 3))"
  by code_simp

end
